theory Spec2Isabelle
  imports Complex_Main "HOL-Library.Log_Nat"
begin

section \<open>The numbers of the calculator\<close>

text \<open>
  The module \<^verbatim>\<open>src/calculator.py\<close> holds four functions over two duck-typed
  arguments. The specification fixes their domain as "plain numeric values (integer or
  floating-point)", so a number is a Python \<^verbatim>\<open>int\<close> (unbounded) or a Python
  \<^verbatim>\<open>float\<close> (an IEEE 754 binary64 value).

  A binary64 value is a NaN, an infinity with its sign, or a finite value given by its
  sign and its magnitude: the two zeros are \<open>FNum False 0\<close> and \<open>FNum True 0\<close>.
  The sign is \<open>True\<close> for negative values.
\<close>

datatype double = FNaN | FInf bool | FNum bool rat

datatype pynum = PInt int | PFloat double

text \<open>
  The exceptions: \<^verbatim>\<open>ValueError\<close> with its message is raised by \<^verbatim>\<open>divide\<close>
  itself, \<^verbatim>\<open>OverflowError\<close> and \<^verbatim>\<open>ZeroDivisionError\<close> by the interpreter's
  arithmetic, \<^verbatim>\<open>UnboundLocalError\<close> by the interpreter when a body reads a local name
  that holds no value.
\<close>

datatype error = ValueError string | OverflowError | ZeroDivisionError | UnboundLocalError string

subsection \<open>Rounding to binary64\<close>

definition pow2 :: "int \<Rightarrow> rat" where
  "pow2 e = (if 0 \<le> e then 2 ^ nat e else 1 / 2 ^ nat (- e))"

text \<open>The exponent of a positive rational: \<open>pow2 (floor_log2 q) \<le> q < pow2 (floor_log2 q + 1)\<close>.\<close>

definition floor_log2 :: "rat \<Rightarrow> int" where
  "floor_log2 q =
     (let k = bitlen (fst (quotient_of q)) - bitlen (snd (quotient_of q))
      in if pow2 k \<le> q then k else k - 1)"

text \<open>Rounding a non-negative rational to the nearest integer, ties to the even one.\<close>

definition round_half_even :: "rat \<Rightarrow> int" where
  "round_half_even x =
     (let f = \<lfloor>x\<rfloor>; r = x - of_int f
      in if r < 1 / 2 then f
         else if 1 / 2 < r then f + 1
         else if even f then f else f + 1)"

text \<open>
  The unit in the last place of a binary64 value of magnitude \<open>q > 0\<close>: 53 significant
  bits for a normal number, and the fixed spacing \<open>2\<^sup>-\<^sup>1\<^sup>0\<^sup>7\<^sup>4\<close> of the subnormal range.
\<close>

definition ulp_exp :: "rat \<Rightarrow> int" where
  "ulp_exp q = max (floor_log2 q - 52) (- 1074)"

text \<open>
  Rounding a positive magnitude to a multiple of its unit in the last place, in the default
  mode (to nearest, ties to even).
\<close>

definition round_nearest :: "rat \<Rightarrow> rat" where
  "round_nearest q = (let e = ulp_exp q in of_int (round_half_even (q / pow2 e)) * pow2 e)"

text \<open>
  Rounding a magnitude to binary64: \<open>None\<close> when the rounded magnitude leaves the finite
  range, that is reaches \<open>2\<^sup>1\<^sup>0\<^sup>2\<^sup>4\<close>.
\<close>

definition round_mag :: "rat \<Rightarrow> rat option" where
  "round_mag q =
     (if q = 0 then Some 0
      else let v = round_nearest q in if pow2 1024 \<le> v then None else Some v)"

text \<open>A finite value of the datatype is a binary64 value when rounding leaves it alone.\<close>

fun is_double :: "double \<Rightarrow> bool" where
  "is_double FNaN = True"
| "is_double (FInf s) = True"
| "is_double (FNum s q) = (0 \<le> q \<and> round_mag q = Some q)"

fun is_num :: "pynum \<Rightarrow> bool" where
  "is_num (PInt i) = True"
| "is_num (PFloat x) = is_double x"

subsection \<open>Arithmetic of \<^verbatim>\<open>float\<close>\<close>

definition signed :: "bool \<Rightarrow> rat \<Rightarrow> rat" where
  "signed s q = (if s then - q else q)"

text \<open>An IEEE operation's result: the exact value rounded, an overflow giving an infinity.\<close>

definition round_float :: "bool \<Rightarrow> rat \<Rightarrow> double" where
  "round_float s q = (case round_mag q of None \<Rightarrow> FInf s | Some v \<Rightarrow> FNum s v)"

fun fneg :: "double \<Rightarrow> double" where
  "fneg FNaN = FNaN"
| "fneg (FInf s) = FInf (\<not> s)"
| "fneg (FNum s q) = FNum (\<not> s) q"

fun fadd :: "double \<Rightarrow> double \<Rightarrow> double" where
  "fadd FNaN y = FNaN"
| "fadd x FNaN = FNaN"
| "fadd (FInf s) (FInf t) = (if s = t then FInf s else FNaN)"
| "fadd (FInf s) (FNum t q) = FInf s"
| "fadd (FNum s p) (FInf t) = FInf t"
| "fadd (FNum s p) (FNum t q) =
     (let r = signed s p + signed t q
      in if r = 0 then FNum (s \<and> t) 0 else round_float (r < 0) \<bar>r\<bar>)"

definition fsub :: "double \<Rightarrow> double \<Rightarrow> double" where
  "fsub x y = fadd x (fneg y)"

fun fmul :: "double \<Rightarrow> double \<Rightarrow> double" where
  "fmul FNaN y = FNaN"
| "fmul x FNaN = FNaN"
| "fmul (FInf s) (FInf t) = FInf (s \<noteq> t)"
| "fmul (FInf s) (FNum t q) = (if q = 0 then FNaN else FInf (s \<noteq> t))"
| "fmul (FNum s p) (FInf t) = (if p = 0 then FNaN else FInf (s \<noteq> t))"
| "fmul (FNum s p) (FNum t q) = round_float (s \<noteq> t) (p * q)"

text \<open>The IEEE quotient by a divisor that is not zero.\<close>

fun fquot :: "double \<Rightarrow> double \<Rightarrow> double" where
  "fquot FNaN y = FNaN"
| "fquot x FNaN = FNaN"
| "fquot (FInf s) (FInf t) = FNaN"
| "fquot (FInf s) (FNum t q) = FInf (s \<noteq> t)"
| "fquot (FNum s p) (FInf t) = FNum (s \<noteq> t) 0"
| "fquot (FNum s p) (FNum t q) = round_float (s \<noteq> t) (p / q)"

fun fzero :: "double \<Rightarrow> bool" where
  "fzero (FNum t q) = (q = 0)"
| "fzero y = False"

text \<open>
  \<^verbatim>\<open>float.__truediv__\<close> tests the divisor against zero first and raises
  \<^verbatim>\<open>ZeroDivisionError\<close>; otherwise it is the IEEE quotient, whose overflow is an
  infinity and not an exception.
\<close>

definition fdiv :: "double \<Rightarrow> double \<Rightarrow> error + double" where
  "fdiv x y = (if fzero y then Inl ZeroDivisionError else Inr (fquot x y))"

text \<open>Comparing two floats with \<^verbatim>\<open>==\<close>: a NaN equals nothing, the two zeros are equal.\<close>

fun feq :: "double \<Rightarrow> double \<Rightarrow> bool" where
  "feq (FInf s) (FInf t) = (s = t)"
| "feq (FNum s p) (FNum t q) = (signed s p = signed t q)"
| "feq x y = False"

subsection \<open>Arithmetic of \<^verbatim>\<open>int\<close> and of mixed operands\<close>

text \<open>
  Converting an \<^verbatim>\<open>int\<close> to \<^verbatim>\<open>float\<close> rounds it correctly and raises
  \<^verbatim>\<open>OverflowError\<close> ("int too large to convert to float") beyond the finite range.
\<close>

definition float_of_int :: "int \<Rightarrow> error + double" where
  "float_of_int i =
     (case round_mag \<bar>of_int i\<bar> of
        None \<Rightarrow> Inl OverflowError
      | Some v \<Rightarrow> Inr (FNum (i < 0) v))"

text \<open>
  \<^verbatim>\<open>int.__truediv__\<close>: the correctly rounded quotient as a \<^verbatim>\<open>float\<close>, its sign
  the exclusive or of the operands' signs also when the dividend is zero;
  \<^verbatim>\<open>ZeroDivisionError\<close> for a zero divisor and \<^verbatim>\<open>OverflowError\<close> ("integer
  division result too large for a float") beyond the finite range.
\<close>

definition int_truediv :: "int \<Rightarrow> int \<Rightarrow> error + double" where
  "int_truediv a b =
     (if b = 0 then Inl ZeroDivisionError
      else case round_mag (\<bar>of_int a\<bar> / \<bar>of_int b\<bar>) of
             None \<Rightarrow> Inl OverflowError
           | Some v \<Rightarrow> Inr (FNum ((a < 0) \<noteq> (b < 0)) v))"

text \<open>An operand of a float operation: a float as it is, an int converted.\<close>

fun to_double :: "pynum \<Rightarrow> error + double" where
  "to_double (PFloat x) = Inr x"
| "to_double (PInt i) = float_of_int i"

text \<open>
  A float operation on operands of which one at least is a float: the left operand is
  converted first, then the right one, then the operation runs.
\<close>

definition float_op ::
    "(double \<Rightarrow> double \<Rightarrow> error + double) \<Rightarrow> pynum \<Rightarrow> pynum \<Rightarrow> error + pynum" where
  "float_op f a b =
     (case to_double a of
        Inl e \<Rightarrow> Inl e
      | Inr x \<Rightarrow>
          (case to_double b of
             Inl e \<Rightarrow> Inl e
           | Inr y \<Rightarrow> (case f x y of Inl e \<Rightarrow> Inl e | Inr z \<Rightarrow> Inr (PFloat z))))"

fun py_add :: "pynum \<Rightarrow> pynum \<Rightarrow> error + pynum" where
  "py_add (PInt a) (PInt b) = Inr (PInt (a + b))"
| "py_add a b = float_op (\<lambda>x y. Inr (fadd x y)) a b"

fun py_sub :: "pynum \<Rightarrow> pynum \<Rightarrow> error + pynum" where
  "py_sub (PInt a) (PInt b) = Inr (PInt (a - b))"
| "py_sub a b = float_op (\<lambda>x y. Inr (fsub x y)) a b"

fun py_mul :: "pynum \<Rightarrow> pynum \<Rightarrow> error + pynum" where
  "py_mul (PInt a) (PInt b) = Inr (PInt (a * b))"
| "py_mul a b = float_op (\<lambda>x y. Inr (fmul x y)) a b"

fun py_truediv :: "pynum \<Rightarrow> pynum \<Rightarrow> error + pynum" where
  "py_truediv (PInt a) (PInt b) =
     (case int_truediv a b of Inl e \<Rightarrow> Inl e | Inr z \<Rightarrow> Inr (PFloat z))"
| "py_truediv a b = float_op fdiv a b"

text \<open>Unary minus.\<close>

fun py_neg :: "pynum \<Rightarrow> pynum" where
  "py_neg (PInt a) = PInt (- a)"
| "py_neg (PFloat x) = PFloat (fneg x)"

text \<open>
  \<^verbatim>\<open>==\<close> on numbers. An int and a float are compared by their exact values, with no
  conversion of the int.
\<close>

fun py_eq :: "pynum \<Rightarrow> pynum \<Rightarrow> bool" where
  "py_eq (PInt a) (PInt b) = (a = b)"
| "py_eq (PFloat x) (PFloat y) = feq x y"
| "py_eq (PInt a) (PFloat (FNum t q)) = (of_int a = signed t q)"
| "py_eq (PFloat (FNum s p)) (PInt b) = (signed s p = of_int b)"
| "py_eq a b = False"

section \<open>The module \<^verbatim>\<open>calculator\<close>\<close>

text \<open>\<^verbatim>\<open>def add(a, b): return a + b\<close>\<close>

definition add :: "pynum \<Rightarrow> pynum \<Rightarrow> error + pynum" where
  "add a b = py_add a b"

text \<open>
  \<^verbatim>\<open>def subtract(a, b): unused_variable = 123; return a - b\<close>.
  The local is bound and never read.
\<close>

definition subtract :: "pynum \<Rightarrow> pynum \<Rightarrow> error + pynum" where
  "subtract a b = (let unused_variable = PInt 123 in py_sub a b)"

text \<open>\<^verbatim>\<open>def multiply(a, b): return a * b\<close>\<close>

definition multiply :: "pynum \<Rightarrow> pynum \<Rightarrow> error + pynum" where
  "multiply a b = py_mul a b"

text \<open>
  \<^verbatim>\<open>def divide(a, b):\<close>
  \<^verbatim>\<open>    if b == 0: raise ValueError("Cannot divide by zero")\<close>
  \<^verbatim>\<open>    return a / b\<close>

  The function is named \<open>divide_py\<close> here, \<open>divide\<close> being the constant behind \<open>/\<close>.
\<close>

definition divide_py :: "pynum \<Rightarrow> pynum \<Rightarrow> error + pynum" where
  "divide_py a b =
     (if py_eq b (PInt 0) then Inl (ValueError ''Cannot divide by zero'')
      else py_truediv a b)"

section \<open>Notions used by the properties\<close>

text \<open>The exact value of a finite number; a NaN and the infinities have none.\<close>

fun exact :: "pynum \<Rightarrow> rat option" where
  "exact (PInt i) = Some (of_int i)"
| "exact (PFloat (FNum s q)) = Some (signed s q)"
| "exact (PFloat x) = None"

fun is_float :: "pynum \<Rightarrow> bool" where
  "is_float (PFloat x) = True"
| "is_float (PInt i) = False"

text \<open>
  A number that a float operation takes at its exact value: a float, or an int of
  magnitude at most \<open>2\<^sup>5\<^sup>3\<close>, which the conversion to float leaves alone.
\<close>

fun float_exact :: "pynum \<Rightarrow> bool" where
  "float_exact (PInt i) = (\<bar>i\<bar> \<le> 2 ^ 53)"
| "float_exact (PFloat x) = True"

text \<open>
  An int that no float can hold: its magnitude is at least \<open>2\<^sup>1\<^sup>0\<^sup>2\<^sup>4 - 2\<^sup>9\<^sup>7\<^sup>0\<close>, the
  midpoint between the largest finite binary64 value and \<open>2\<^sup>1\<^sup>0\<^sup>2\<^sup>4\<close>.
\<close>

fun too_large :: "pynum \<Rightarrow> bool" where
  "too_large (PInt i) = (pow2 1024 - pow2 970 \<le> \<bar>of_int i\<bar>)"
| "too_large (PFloat x) = False"

text \<open>
  The operands on which a float operation cannot start: one is a float and the other an
  int that no float can hold.
\<close>

definition unconvertible :: "pynum \<Rightarrow> pynum \<Rightarrow> bool" where
  "unconvertible a b = ((is_float a \<or> is_float b) \<and> (too_large a \<or> too_large b))"

text \<open>
  The operands on which a true division by a divisor other than zero cannot give a float:
  two ints whose quotient no float can hold, or an operand that cannot be converted.
\<close>

fun quotient_too_large :: "pynum \<Rightarrow> pynum \<Rightarrow> bool" where
  "quotient_too_large (PInt i) (PInt j) = (pow2 1024 - pow2 970 \<le> \<bar>of_int i\<bar> / \<bar>of_int j\<bar>)"
| "quotient_too_large a b = (too_large a \<or> too_large b)"

text \<open>
  The test expression \<^verbatim>\<open>x == y\<close> on the outcomes of two calls: it is true only when
  both calls return and the returned values compare equal.
\<close>

fun eq_results :: "error + pynum \<Rightarrow> error + pynum \<Rightarrow> bool" where
  "eq_results (Inr x) (Inr y) = py_eq x y"
| "eq_results r r' = False"

text \<open>The expression \<^verbatim>\<open>-x\<close> on the outcome of a call.\<close>

fun neg_result :: "error + pynum \<Rightarrow> error + pynum" where
  "neg_result (Inr x) = Inr (py_neg x)"
| "neg_result (Inl e) = Inl e"

text \<open>The expression \<^verbatim>\<open>multiply(divide(a, b), b)\<close>.\<close>

definition roundtrip :: "pynum \<Rightarrow> pynum \<Rightarrow> error + pynum" where
  "roundtrip a b = (case divide_py a b of Inl e \<Rightarrow> Inl e | Inr q \<Rightarrow> multiply q b)"

text \<open>
  A value \<open>y\<close> is near a value \<open>x \<ge> 0\<close> after \<open>k\<close> roundings when it is \<open>x\<close> times
  \<open>k\<close> factors, each within \<open>2\<^sup>-\<^sup>5\<^sup>3\<close> of one.
\<close>

definition near :: "nat \<Rightarrow> rat \<Rightarrow> rat \<Rightarrow> bool" where
  "near k x y = ((1 - pow2 (- 53)) ^ k * x \<le> y \<and> y \<le> (1 + pow2 (- 53)) ^ k * x)"

subsection \<open>Calls in a world\<close>

text \<open>
  The four functions as the interpreter runs them, statement by statement. A body runs on
  a state: the world, which is all that outlives the call (module globals, the heap, the
  streams), and the frame of the call with its local names. A step of a body takes a
  state and gives an outcome, a value or an exception, together with the state it leaves;
  a step may change either part of the state.
\<close>

record 'w state =
  world :: 'w
  locals :: "string \<rightharpoonup> pynum"

type_synonym ('w, 'a) step = "'w state \<Rightarrow> (error + 'a) \<times> 'w state"

text \<open>The outcome of an operator: what it computes or raises; the state stays.\<close>

definition outcome :: "error + 'a \<Rightarrow> ('w, 'a) step" where
  "outcome r s = (r, s)"

text \<open>\<^verbatim>\<open>raise\<close>.\<close>

definition raises :: "error \<Rightarrow> ('w, 'a) step" where
  "raises e s = (Inl e, s)"

text \<open>One step after another: an exception ends the body, in the state reached.\<close>

definition and_then :: "('w, 'a) step \<Rightarrow> ('a \<Rightarrow> ('w, 'b) step) \<Rightarrow> ('w, 'b) step" where
  "and_then m f s = (case m s of (Inl e, s') \<Rightarrow> (Inl e, s') | (Inr v, s') \<Rightarrow> f v s')"

text \<open>
  Reading a local name (a parameter, or a name the body assigns), and assigning to one.
\<close>

definition load_fast :: "string \<Rightarrow> ('w, pynum) step" where
  "load_fast n s =
     (case locals s n of
        None \<Rightarrow> (Inl (UnboundLocalError n), s)
      | Some v \<Rightarrow> (Inr v, s))"

definition store_fast :: "string \<Rightarrow> pynum \<Rightarrow> ('w, unit) step" where
  "store_fast n v s = (Inr (), s\<lparr>locals := (locals s)(n \<mapsto> v)\<rparr>)"

text \<open>\<^verbatim>\<open>return a + b\<close>\<close>

definition add_body :: "('w, pynum) step" where
  "add_body =
     and_then (load_fast ''a'') (\<lambda>x.
     and_then (load_fast ''b'') (\<lambda>y.
     outcome (py_add x y)))"

text \<open>\<^verbatim>\<open>unused_variable = 123; return a - b\<close>\<close>

definition subtract_body :: "('w, pynum) step" where
  "subtract_body =
     and_then (store_fast ''unused_variable'' (PInt 123)) (\<lambda>u.
     and_then (load_fast ''a'') (\<lambda>x.
     and_then (load_fast ''b'') (\<lambda>y.
     outcome (py_sub x y))))"

text \<open>\<^verbatim>\<open>return a * b\<close>\<close>

definition multiply_body :: "('w, pynum) step" where
  "multiply_body =
     and_then (load_fast ''a'') (\<lambda>x.
     and_then (load_fast ''b'') (\<lambda>y.
     outcome (py_mul x y)))"

text \<open>
  \<^verbatim>\<open>if b == 0: raise ValueError("Cannot divide by zero")\<close> and then
  \<^verbatim>\<open>return a / b\<close>. The name \<^verbatim>\<open>ValueError\<close> is the built-in exception class: the
  module binds no global of that name.
\<close>

definition divide_body :: "('w, pynum) step" where
  "divide_body =
     and_then (load_fast ''b'') (\<lambda>z.
     if py_eq z (PInt 0) then raises (ValueError ''Cannot divide by zero'')
     else and_then (load_fast ''a'') (\<lambda>x.
          and_then (load_fast ''b'') (\<lambda>y.
          outcome (py_truediv x y))))"

text \<open>
  A call of a function of two parameters \<^verbatim>\<open>a\<close> and \<^verbatim>\<open>b\<close>: a new frame holds the
  arguments, the body runs, and the caller gets the outcome and the world the body left;
  the frame is gone.
\<close>

definition call :: "('w, pynum) step \<Rightarrow> pynum \<Rightarrow> pynum \<Rightarrow> 'w \<Rightarrow> (error + pynum) \<times> 'w" where
  "call body x y w =
     (case body \<lparr>world = w, locals = [''a'' \<mapsto> x, ''b'' \<mapsto> y]\<rparr> of
        (r, s) \<Rightarrow> (r, world s))"

definition call_add :: "pynum \<Rightarrow> pynum \<Rightarrow> 'w \<Rightarrow> (error + pynum) \<times> 'w" where
  "call_add a b w = call add_body a b w"

definition call_subtract :: "pynum \<Rightarrow> pynum \<Rightarrow> 'w \<Rightarrow> (error + pynum) \<times> 'w" where
  "call_subtract a b w = call subtract_body a b w"

definition call_multiply :: "pynum \<Rightarrow> pynum \<Rightarrow> 'w \<Rightarrow> (error + pynum) \<times> 'w" where
  "call_multiply a b w = call multiply_body a b w"

definition call_divide :: "pynum \<Rightarrow> pynum \<Rightarrow> 'w \<Rightarrow> (error + pynum) \<times> 'w" where
  "call_divide a b w = call divide_body a b w"

section \<open>Properties of rounding\<close>

lemma pow2_powi: "pow2 e = 2 powi e"
  by (simp add: pow2_def power_int_def power_one_over)

lemma pow2_pos [simp]: "0 < pow2 e"
  by (simp add: pow2_def)

lemma pow2_nonzero [simp]: "pow2 e \<noteq> 0"
  by (simp add: pow2_def)

lemma pow2_nonneg [simp]: "0 \<le> pow2 e"
  by (simp add: pow2_def)

lemma pow2_not_le_0 [simp]: "\<not> pow2 e \<le> 0"
  by (simp add: not_le)

lemma pow2_add: "pow2 (a + b) = pow2 a * pow2 b"
  by (simp add: pow2_powi power_int_add)

lemma pow2_diff: "pow2 (a - b) = pow2 a / pow2 b"
  by (simp add: pow2_powi power_int_diff)

lemma pow2_mono: "a \<le> b \<Longrightarrow> pow2 a \<le> pow2 b"
  by (simp add: pow2_powi power_int_increasing)

lemma pow2_strict_mono: "a < b \<Longrightarrow> pow2 a < pow2 b"
  by (simp add: pow2_powi power_int_strict_increasing)

lemma pow2_less_iff: "pow2 a < pow2 b \<longleftrightarrow> a < b"
  using pow2_strict_mono [of a b] pow2_mono [of b a] by (auto simp: not_less [symmetric])

lemma pow2_le_iff: "pow2 a \<le> pow2 b \<longleftrightarrow> a \<le> b"
  using pow2_strict_mono [of b a] pow2_mono [of a b] by (auto simp: not_le [symmetric])

lemma pow2_of_nat: "0 \<le> e \<Longrightarrow> pow2 e = of_int (2 ^ nat e)"
  by (simp add: pow2_def)

lemma pow2_0 [simp]: "pow2 0 = 1"
  by (simp add: pow2_def)

lemma pow2_1: "pow2 1 = 2"
  by (simp add: pow2_def)

lemma bitlen_pow2_bounds:
  assumes "0 < n"
  shows "pow2 (bitlen n - 1) \<le> of_int n" and "of_int n < pow2 (bitlen n)"
proof -
  have b: "0 \<le> bitlen n - 1" "0 \<le> bitlen n"
    using assms bitlen_bounds [OF assms] bitlen_nonneg [of n]
    by (auto simp: bitlen_alt_def)
  from bitlen_bounds [OF assms]
  have 1: "(2::int) ^ nat (bitlen n - 1) \<le> n" and 2: "n < 2 ^ nat (bitlen n)" by auto
  have "(of_int ((2::int) ^ nat (bitlen n - 1)) :: rat) \<le> of_int n"
    using 1 of_int_le_iff by blast
  then show "pow2 (bitlen n - 1) \<le> of_int n"
    using b by (simp add: pow2_def)
  have "(of_int n :: rat) < of_int ((2::int) ^ nat (bitlen n))"
    using 2 of_int_less_iff by blast
  then show "of_int n < pow2 (bitlen n)"
    using b by (simp add: pow2_def)
qed

lemma floor_log2_bounds:
  assumes "0 < q"
  shows "pow2 (floor_log2 q) \<le> q" and "q < pow2 (floor_log2 q + 1)"
proof -
  obtain n d where nd: "quotient_of q = (n, d)" by (cases "quotient_of q")
  then have d: "0 < d" and q: "q = of_int n / of_int d"
    using quotient_of_denom_pos quotient_of_div by auto
  have n: "0 < n"
    using assms d q by (simp add: zero_less_divide_iff)
  define k where "k = bitlen n - bitlen d"
  have dr: "(0::rat) < of_int d" using d by simp
  have lo: "pow2 (k - 1) < q"
  proof -
    have "pow2 (k - 1) * of_int d < pow2 (k - 1) * pow2 (bitlen d)"
      using bitlen_pow2_bounds(2) [OF d] by simp
    also have "\<dots> = pow2 (bitlen n - 1)"
      by (simp add: k_def pow2_add [symmetric])
    also have "\<dots> \<le> of_int n" using bitlen_pow2_bounds(1) [OF n] .
    finally show ?thesis using dr by (simp add: q pos_less_divide_eq)
  qed
  have hi: "q < pow2 (k + 1)"
  proof -
    have "of_int n < pow2 (bitlen n)" using bitlen_pow2_bounds(2) [OF n] .
    also have "\<dots> = pow2 (k + 1) * pow2 (bitlen d - 1)"
      by (simp add: k_def pow2_add [symmetric])
    also have "\<dots> \<le> pow2 (k + 1) * of_int d"
      using bitlen_pow2_bounds(1) [OF d] by simp
    finally show ?thesis using dr by (simp add: q pos_divide_less_eq)
  qed
  have fl: "floor_log2 q = (if pow2 k \<le> q then k else k - 1)"
    by (simp add: floor_log2_def nd k_def Let_def)
  show "pow2 (floor_log2 q) \<le> q"
    using lo by (simp add: fl)
  show "q < pow2 (floor_log2 q + 1)"
    using hi by (simp add: fl)
qed

lemma floor_log2_unique:
  assumes "pow2 k \<le> q" and "q < pow2 (k + 1)"
  shows "floor_log2 q = k"
proof -
  have q: "0 < q" using assms(1) pow2_pos [of k] by linarith
  have "pow2 (floor_log2 q) < pow2 (k + 1)"
    using floor_log2_bounds(1) [OF q] assms(2) by linarith
  moreover have "pow2 k < pow2 (floor_log2 q + 1)"
    using floor_log2_bounds(2) [OF q] assms(1) by linarith
  ultimately show ?thesis by (simp add: pow2_less_iff)
qed

lemma floor_log2_ge: "pow2 k \<le> q \<Longrightarrow> k \<le> floor_log2 q"
proof -
  assume a: "pow2 k \<le> q"
  then have q: "0 < q" using pow2_pos [of k] by linarith
  have "pow2 k < pow2 (floor_log2 q + 1)"
    using floor_log2_bounds(2) [OF q] a by linarith
  then show ?thesis by (simp add: pow2_less_iff)
qed

lemma floor_log2_less: "0 < q \<Longrightarrow> q < pow2 k \<Longrightarrow> floor_log2 q < k"
proof -
  assume q: "0 < q" and a: "q < pow2 k"
  have "pow2 (floor_log2 q) < pow2 k"
    using floor_log2_bounds(1) [OF q] a by linarith
  then show ?thesis by (simp add: pow2_less_iff)
qed

lemma round_half_even_err: "\<bar>of_int (round_half_even x) - x\<bar> \<le> 1 / 2"
proof -
  have "of_int \<lfloor>x\<rfloor> \<le> x" "x < of_int \<lfloor>x\<rfloor> + 1" by linarith+
  then show ?thesis
    by (auto simp: round_half_even_def Let_def)
qed

lemma round_half_even_of_int [simp]: "round_half_even (of_int n) = n"
  by (simp add: round_half_even_def)

lemma round_half_even_le: "x \<le> of_int n \<Longrightarrow> round_half_even x \<le> n"
proof -
  assume a: "x \<le> of_int n"
  have "(of_int (round_half_even x) :: rat) \<le> x + 1 / 2"
    using round_half_even_err [of x] by linarith
  then have "(of_int (round_half_even x) :: rat) < of_int (n + 1)"
    using a by simp
  then have "round_half_even x < n + 1" using of_int_less_iff by blast
  then show ?thesis by simp
qed

lemma round_half_even_ge: "of_int n \<le> x \<Longrightarrow> n \<le> round_half_even x"
proof -
  assume a: "of_int n \<le> x"
  have "x - 1 / 2 \<le> (of_int (round_half_even x) :: rat)"
    using round_half_even_err [of x] by linarith
  then have "(of_int (n - 1) :: rat) < of_int (round_half_even x)"
    using a by simp
  then have "n - 1 < round_half_even x" using of_int_less_iff by blast
  then show ?thesis by simp
qed

lemma round_mag_pos:
  "0 < q \<Longrightarrow> round_mag q = (if pow2 1024 \<le> round_nearest q then None else Some (round_nearest q))"
  by (simp add: round_mag_def Let_def)

lemma rounded_err:
  "\<bar>of_int (round_half_even (q / pow2 e)) * pow2 e - q\<bar> \<le> pow2 (e - 1)"
proof -
  have "\<bar>of_int (round_half_even (q / pow2 e)) * pow2 e - q\<bar>
        = \<bar>of_int (round_half_even (q / pow2 e)) - q / pow2 e\<bar> * pow2 e"
  proof -
    have "of_int (round_half_even (q / pow2 e)) * pow2 e - q
          = (of_int (round_half_even (q / pow2 e)) - q / pow2 e) * pow2 e"
      by (simp add: left_diff_distrib)
    then show ?thesis by (simp only: abs_mult) simp
  qed
  also have "\<dots> \<le> (1 / 2) * pow2 e"
    using round_half_even_err [of "q / pow2 e"] by (simp add: mult_right_mono)
  also have "\<dots> = pow2 (e - 1)"
    by (simp add: pow2_diff pow2_1)
  finally show ?thesis .
qed

lemma rounded_le_pow2:
  assumes "q \<le> pow2 k" and "e \<le> k"
  shows "of_int (round_half_even (q / pow2 e)) * pow2 e \<le> pow2 k"
proof -
  have "q / pow2 e \<le> pow2 (k - e)"
    using assms(1) by (simp add: pow2_diff divide_right_mono)
  also have "\<dots> = of_int (2 ^ nat (k - e))"
    using assms(2) by (simp add: pow2_of_nat)
  finally have "round_half_even (q / pow2 e) \<le> 2 ^ nat (k - e)"
    by (rule round_half_even_le)
  then have "(of_int (round_half_even (q / pow2 e)) :: rat) \<le> of_int (2 ^ nat (k - e))"
    using of_int_le_iff by blast
  then have "of_int (round_half_even (q / pow2 e)) \<le> pow2 (k - e)"
    using assms(2) by (simp add: pow2_of_nat)
  then have "of_int (round_half_even (q / pow2 e)) * pow2 e \<le> pow2 (k - e) * pow2 e"
    by (simp add: mult_right_mono)
  then show ?thesis by (simp add: pow2_add [symmetric])
qed

lemma rounded_ge_pow2:
  assumes "pow2 k \<le> q" and "e \<le> k"
  shows "pow2 k \<le> of_int (round_half_even (q / pow2 e)) * pow2 e"
proof -
  have "pow2 (k - e) \<le> q / pow2 e"
    using assms(1) by (simp add: pow2_diff divide_right_mono)
  moreover have "pow2 (k - e) = of_int (2 ^ nat (k - e))"
    using assms(2) by (simp add: pow2_of_nat)
  ultimately have "2 ^ nat (k - e) \<le> round_half_even (q / pow2 e)"
    using round_half_even_ge [of "2 ^ nat (k - e)" "q / pow2 e"] by simp
  then have "(of_int (2 ^ nat (k - e)) :: rat) \<le> of_int (round_half_even (q / pow2 e))"
    using of_int_le_iff by blast
  then have "pow2 (k - e) \<le> of_int (round_half_even (q / pow2 e))"
    using assms(2) by (simp add: pow2_of_nat)
  then have "pow2 (k - e) * pow2 e \<le> of_int (round_half_even (q / pow2 e)) * pow2 e"
    by (simp add: mult_right_mono)
  then show ?thesis by (simp add: pow2_add [symmetric])
qed

lemma ulp_exp_le: "0 < q \<Longrightarrow> q \<le> pow2 k \<Longrightarrow> - 1074 \<le> k \<Longrightarrow> ulp_exp q \<le> k"
proof -
  assume q: "0 < q" and a: "q \<le> pow2 k" and k: "- 1074 \<le> k"
  have "pow2 (floor_log2 q) \<le> pow2 k"
    using floor_log2_bounds(1) [OF q] a by linarith
  then have "floor_log2 q \<le> k" by (simp add: pow2_le_iff)
  then show ?thesis using k by (simp add: ulp_exp_def)
qed

text \<open>Rounding is monotone at the powers of two, which are binary64 values.\<close>

lemma round_nearest_err: "\<bar>round_nearest q - q\<bar> \<le> pow2 (ulp_exp q - 1)"
  unfolding round_nearest_def Let_def by (rule rounded_err)

lemma round_mag_SomeD:
  "0 < q \<Longrightarrow> round_mag q = Some v \<Longrightarrow> v = round_nearest q \<and> v < pow2 1024"
  by (simp add: round_mag_pos split: if_splits)

lemma round_mag_le_pow2:
  assumes "0 < q" and "q \<le> pow2 k" and "- 1074 \<le> k" and "round_mag q = Some v"
  shows "v \<le> pow2 k"
proof -
  have "round_nearest q \<le> pow2 k"
    unfolding round_nearest_def Let_def
    by (rule rounded_le_pow2 [OF assms(2) ulp_exp_le [OF assms(1-3)]])
  then show ?thesis using round_mag_SomeD [OF assms(1,4)] by simp
qed

lemma round_mag_finite:
  assumes "0 \<le> q" and "q \<le> pow2 1023"
  shows "\<exists>v. round_mag q = Some v"
proof (cases "q = 0")
  case True
  then show ?thesis by (simp add: round_mag_def)
next
  case False
  then have q: "0 < q" using assms(1) by simp
  have "round_nearest q \<le> pow2 1023"
    unfolding round_nearest_def Let_def
    using rounded_le_pow2 [OF assms(2) ulp_exp_le [OF q assms(2)]] by simp
  also have "\<dots> < pow2 1024" by (simp add: pow2_less_iff)
  finally show ?thesis
    using q by (simp add: round_mag_pos)
qed

lemma round_mag_ge_pow2:
  assumes "pow2 k \<le> q" and "- 1074 \<le> k" and "round_mag q = Some v"
  shows "pow2 k \<le> v"
proof -
  have q: "0 < q" using assms(1) pow2_pos [of k] by linarith
  have e: "ulp_exp q \<le> floor_log2 q"
    using floor_log2_ge [OF assms(1)] assms(2) by (simp add: ulp_exp_def)
  have "pow2 k \<le> pow2 (floor_log2 q)"
    using floor_log2_ge [OF assms(1)] by (simp add: pow2_le_iff)
  also have "\<dots> \<le> round_nearest q"
    unfolding round_nearest_def Let_def
    using rounded_ge_pow2 [OF floor_log2_bounds(1) [OF q] e] .
  finally show ?thesis
    using round_mag_SomeD [OF q assms(3)] by simp
qed

text \<open>In the normal range a rounding moves a value by at most \<open>2\<^sup>-\<^sup>5\<^sup>3\<close> of itself.\<close>

lemma round_mag_rel_err:
  assumes "pow2 (- 1022) \<le> q" and "round_mag q = Some v"
  shows "\<bar>v - q\<bar> \<le> pow2 (- 53) * q"
proof -
  have q: "0 < q" using assms(1) pow2_pos [of "- 1022"] by linarith
  have "- 1022 \<le> floor_log2 q" using floor_log2_ge [OF assms(1)] .
  then have e: "ulp_exp q = floor_log2 q - 52" by (simp add: ulp_exp_def)
  have v: "v = round_nearest q"
    using round_mag_SomeD [OF q assms(2)] by simp
  have "\<bar>v - q\<bar> \<le> pow2 (ulp_exp q - 1)"
    unfolding v by (rule round_nearest_err)
  also have "\<dots> = pow2 (- 53) * pow2 (floor_log2 q)"
    by (simp add: e pow2_add [symmetric])
  also have "\<dots> \<le> pow2 (- 53) * q"
    using floor_log2_bounds(1) [OF q] by simp
  finally show ?thesis .
qed

lemma round_mag_nonneg:
  assumes "0 \<le> q" and "round_mag q = Some v"
  shows "0 \<le> v"
proof (cases "q = 0")
  case True
  then show ?thesis using assms(2) by (simp add: round_mag_def)
next
  case False
  then have q: "0 < q" using assms(1) by simp
  have "0 \<le> round_half_even (q / pow2 (ulp_exp q))"
    using round_half_even_ge [of 0 "q / pow2 (ulp_exp q)"] q by simp
  then have "0 \<le> round_nearest q"
    by (simp add: round_nearest_def Let_def)
  then show ?thesis
    using round_mag_SomeD [OF q assms(2)] by simp
qed

lemma pow2_53: "pow2 53 = 2 ^ 53"
  by (simp add: pow2_def)

lemma round_nearest_ge_pow2:
  assumes "pow2 k \<le> q" and "- 1074 \<le> k"
  shows "pow2 k \<le> round_nearest q"
proof -
  have q: "0 < q" using assms(1) pow2_pos [of k] by linarith
  have e: "ulp_exp q \<le> floor_log2 q"
    using floor_log2_ge [OF assms(1)] assms(2) by (simp add: ulp_exp_def)
  have "pow2 k \<le> pow2 (floor_log2 q)"
    using floor_log2_ge [OF assms(1)] by (simp add: pow2_le_iff)
  also have "\<dots> \<le> round_nearest q"
    unfolding round_nearest_def Let_def
    using rounded_ge_pow2 [OF floor_log2_bounds(1) [OF q] e] .
  finally show ?thesis .
qed

lemma round_mag_overflow: "pow2 1024 \<le> q \<Longrightarrow> round_mag q = None"
proof -
  assume a: "pow2 1024 \<le> q"
  then have q: "0 < q" using pow2_pos [of 1024] by linarith
  show ?thesis
    using round_nearest_ge_pow2 [OF a] q by (simp add: round_mag_pos)
qed

text \<open>A multiple of a unit no finer than its own is left alone.\<close>

lemma round_nearest_exact:
  assumes "0 < m" and "m < 2 ^ 53" and "- 1074 \<le> e"
  shows "round_nearest (of_int m * pow2 e) = of_int m * pow2 e"
proof -
  let ?q = "of_int m * pow2 e :: rat"
  have q: "0 < ?q" using assms(1) by simp
  have "(of_int m :: rat) < of_int (2 ^ 53)"
    using assms(2) of_int_less_iff by blast
  then have "(of_int m :: rat) < pow2 53" by (simp add: pow2_53)
  then have "?q < pow2 53 * pow2 e" by (simp add: mult_strict_right_mono)
  then have "?q < pow2 (e + 53)" by (simp add: pow2_add mult.commute)
  then have "floor_log2 ?q < e + 53" by (rule floor_log2_less [OF q])
  then have u: "ulp_exp ?q \<le> e" using assms(3) by (simp add: ulp_exp_def)
  have "?q / pow2 (ulp_exp ?q) = of_int m * pow2 (e - ulp_exp ?q)"
    by (simp add: pow2_diff)
  also have "\<dots> = of_int (m * 2 ^ nat (e - ulp_exp ?q))"
    using u by (simp add: pow2_of_nat)
  finally have "round_half_even (?q / pow2 (ulp_exp ?q)) = m * 2 ^ nat (e - ulp_exp ?q)"
    by (simp only: round_half_even_of_int)
  then have "round_nearest ?q = of_int (m * 2 ^ nat (e - ulp_exp ?q)) * pow2 (ulp_exp ?q)"
    by (simp add: round_nearest_def Let_def)
  also have "\<dots> = of_int m * (pow2 (e - ulp_exp ?q) * pow2 (ulp_exp ?q))"
    using u by (simp add: pow2_of_nat)
  also have "\<dots> = ?q" by (simp add: pow2_add [symmetric])
  finally show ?thesis .
qed

lemma round_mag_exact:
  assumes "0 \<le> m" and "m \<le> 2 ^ 53" and "- 1074 \<le> e" and "of_int m * pow2 e < pow2 1024"
  shows "round_mag (of_int m * pow2 e) = Some (of_int m * pow2 e)"
proof -
  consider "m = 0" | "0 < m" "m < 2 ^ 53" | "m = 2 ^ 53" using assms(1,2) by linarith
  then show ?thesis
  proof cases
    case 1
    then show ?thesis by (simp add: round_mag_def)
  next
    case 2
    then have "0 < (of_int m * pow2 e :: rat)" by simp
    then show ?thesis
      using round_nearest_exact [OF 2 assms(3)] assms(4) by (simp add: round_mag_pos)
  next
    case 3
    have eq: "(of_int m * pow2 e :: rat) = of_int 1 * pow2 (e + 53)"
      by (simp add: 3 pow2_add pow2_53)
    have "round_nearest (of_int 1 * pow2 (e + 53)) = of_int 1 * pow2 (e + 53)"
      using assms(3) by (intro round_nearest_exact) auto
    moreover have "0 < (of_int 1 * pow2 (e + 53) :: rat)" by simp
    ultimately have "round_mag (of_int 1 * pow2 (e + 53)) = Some (of_int 1 * pow2 (e + 53))"
      using assms(4) unfolding eq by (simp add: round_mag_pos)
    then show ?thesis unfolding eq .
  qed
qed

lemma round_mag_of_int:
  "0 \<le> n \<Longrightarrow> n \<le> 2 ^ 53 \<Longrightarrow> round_mag (of_int n) = Some (of_int n)"
proof -
  assume n: "0 \<le> n" "n \<le> 2 ^ 53"
  have "(of_int n :: rat) \<le> of_int (2 ^ 53)" using n(2) of_int_le_iff by blast
  also have "\<dots> = pow2 53" by (simp add: pow2_53)
  also have "\<dots> < pow2 1024" by (simp add: pow2_less_iff)
  finally show ?thesis
    using round_mag_exact [OF n, of 0] by simp
qed

lemma round_mag_pow2:
  "- 1074 \<le> k \<Longrightarrow> k < 1024 \<Longrightarrow> round_mag (pow2 k) = Some (pow2 k)"
  using round_mag_exact [of 1 k] by (simp add: pow2_less_iff)

text \<open>The significand of a rounded value has at most 53 bits.\<close>

lemma significand_le:
  assumes "0 < q"
  shows "round_half_even (q / pow2 (ulp_exp q)) \<le> 2 ^ 53"
proof -
  have "floor_log2 q - 52 \<le> ulp_exp q" by (simp add: ulp_exp_def)
  then have "floor_log2 q + 1 \<le> ulp_exp q + 53" by simp
  then have "pow2 (floor_log2 q + 1) \<le> pow2 (ulp_exp q + 53)" by (simp add: pow2_le_iff)
  then have "q \<le> pow2 (ulp_exp q + 53)"
    using floor_log2_bounds(2) [OF assms] by linarith
  then have "q / pow2 (ulp_exp q) \<le> pow2 (ulp_exp q + 53) / pow2 (ulp_exp q)"
    by (simp add: divide_right_mono)
  also have "\<dots> = of_int (2 ^ 53)" by (simp add: pow2_add pow2_53)
  finally show ?thesis by (rule round_half_even_le)
qed

text \<open>Rounding returns binary64 values: a rounded value is left alone by rounding.\<close>

lemma round_mag_idem:
  assumes "0 \<le> q" and "round_mag q = Some v"
  shows "round_mag v = Some v"
proof (cases "q = 0")
  case True
  then show ?thesis using assms(2) by (auto simp: round_mag_def)
next
  case False
  then have q: "0 < q" using assms(1) by simp
  let ?m = "round_half_even (q / pow2 (ulp_exp q))"
  have v: "v = of_int ?m * pow2 (ulp_exp q)" and lt: "v < pow2 1024"
    using round_mag_SomeD [OF q assms(2)] by (simp_all add: round_nearest_def Let_def)
  have m0: "0 \<le> ?m"
    using round_half_even_ge [of 0 "q / pow2 (ulp_exp q)"] q by simp
  have e: "- 1074 \<le> ulp_exp q" by (simp add: ulp_exp_def)
  show ?thesis
    unfolding v
    by (rule round_mag_exact [OF m0 significand_le [OF q] e]) (use v lt in simp)
qed

lemma round_half_even_tie_up:
  assumes "even n" and "of_int n - 1 / 2 \<le> x"
  shows "n \<le> round_half_even x"
proof (cases "of_int n \<le> x")
  case True
  then show ?thesis by (rule round_half_even_ge)
next
  case False
  then have fl: "\<lfloor>x\<rfloor> = n - 1"
    using assms(2) by (intro floor_unique) auto
  have odd: "\<not> even (n - 1)" using assms(1) by simp
  show ?thesis
    using assms(2) odd by (simp add: round_half_even_def fl Let_def)
qed

lemma round_half_even_below:
  assumes "x < of_int n + 1 / 2"
  shows "round_half_even x \<le> n"
proof -
  have "(of_int (round_half_even x) :: rat) \<le> x + 1 / 2"
    using round_half_even_err [of x] by linarith
  then have "(of_int (round_half_even x) :: rat) < of_int (n + 1)"
    using assms by simp
  then have "round_half_even x < n + 1" using of_int_less_iff by blast
  then show ?thesis by simp
qed

lemma ulp_exp_top:
  assumes "pow2 1023 \<le> q" and "q < pow2 1024"
  shows "ulp_exp q = 971"
  using floor_log2_unique [of 1023 q] assms by (simp add: ulp_exp_def)

text \<open>
  The overflow threshold: a magnitude leaves the finite range exactly from the midpoint
  between the largest finite value and \<open>2\<^sup>1\<^sup>0\<^sup>2\<^sup>4\<close>.
\<close>

lemma round_mag_None_iff:
  assumes "0 \<le> q"
  shows "round_mag q = None \<longleftrightarrow> pow2 1024 - pow2 970 \<le> q"
proof (cases "q \<le> pow2 1023")
  case True
  have "pow2 970 < pow2 1023" by (simp add: pow2_less_iff)
  moreover have "pow2 1024 = pow2 1023 + pow2 1023"
    using pow2_add [of 1023 1] by (simp add: pow2_1)
  ultimately have "q < pow2 1024 - pow2 970" using True by linarith
  then show ?thesis using round_mag_finite [OF assms True] by auto
next
  case False
  then have lo: "pow2 1023 \<le> q" by simp
  then have q: "0 < q" using pow2_pos [of 1023] by linarith
  show ?thesis
  proof (cases "pow2 1024 \<le> q")
    case True
    moreover have "pow2 1024 - pow2 970 \<le> pow2 1024" by simp
    ultimately have "pow2 1024 - pow2 970 \<le> q" by linarith
    then show ?thesis using round_mag_overflow [OF True] by simp
  next
    case False
    then have hi: "q < pow2 1024" by simp
    have e: "ulp_exp q = 971" by (rule ulp_exp_top [OF lo hi])
    have rn: "round_nearest q = of_int (round_half_even (q / pow2 971)) * pow2 971"
      by (simp add: round_nearest_def e)
    have mid: "(pow2 1024 - pow2 970) / pow2 971 = of_int (2 ^ 53) - 1 / 2"
    proof -
      have "pow2 1024 / pow2 971 = pow2 53" "pow2 970 / pow2 971 = pow2 (- 1)"
        by (simp_all add: pow2_diff [symmetric])
      then show ?thesis by (simp add: diff_divide_distrib pow2_53) (simp add: pow2_def)
    qed
    have top: "of_int (2 ^ 53) * pow2 971 = pow2 1024"
      using pow2_add [of 53 971] by (simp add: pow2_53)
    show ?thesis
    proof (cases "pow2 1024 - pow2 970 \<le> q")
      case True
      then have "(pow2 1024 - pow2 970) / pow2 971 \<le> q / pow2 971"
        by (simp add: divide_right_mono)
      then have "of_int (2 ^ 53) - 1 / 2 \<le> q / pow2 971" by (simp only: mid)
      then have "2 ^ 53 \<le> round_half_even (q / pow2 971)"
        by (intro round_half_even_tie_up) auto
      then have "(of_int (2 ^ 53) :: rat) \<le> of_int (round_half_even (q / pow2 971))"
        using of_int_le_iff by blast
      then have "of_int (2 ^ 53) * pow2 971 \<le> round_nearest q"
        unfolding rn by (simp add: mult_right_mono)
      then have "pow2 1024 \<le> round_nearest q" by (simp only: top)
      then show ?thesis using True q by (simp add: round_mag_pos)
    next
      case False
      then have "q / pow2 971 < (pow2 1024 - pow2 970) / pow2 971"
        by (simp add: divide_strict_right_mono)
      then have "q / pow2 971 < of_int (2 ^ 53 - 1) + 1 / 2" by (simp add: mid)
      then have "round_half_even (q / pow2 971) \<le> 2 ^ 53 - 1"
        by (rule round_half_even_below)
      then have "(of_int (round_half_even (q / pow2 971)) :: rat) \<le> of_int (2 ^ 53 - 1)"
        using of_int_le_iff by blast
      then have "round_nearest q \<le> of_int (2 ^ 53 - 1) * pow2 971"
        unfolding rn by (simp add: mult_right_mono)
      also have "\<dots> = pow2 1024 - pow2 971"
        using top by (simp add: left_diff_distrib)
      also have "\<dots> < pow2 1024" by simp
      finally show ?thesis using False q by (simp add: round_mag_pos)
    qed
  qed
qed

section \<open>Properties of the arithmetic\<close>

lemma float_of_int_eq:
  "float_of_int i =
     (if pow2 1024 - pow2 970 \<le> \<bar>of_int i\<bar> then Inl OverflowError
      else Inr (FNum (i < 0) (the (round_mag \<bar>of_int i\<bar>))))"
proof -
  have "round_mag \<bar>of_int i\<bar> = None \<longleftrightarrow> pow2 1024 - pow2 970 \<le> \<bar>of_int i :: rat\<bar>"
    by (rule round_mag_None_iff) simp
  then show ?thesis
    by (cases "round_mag \<bar>of_int i\<bar>") (auto simp: float_of_int_def)
qed

lemma to_double_Inl_iff: "to_double a = Inl e \<longleftrightarrow> e = OverflowError \<and> too_large a"
  by (cases a) (auto simp: float_of_int_eq)

lemma to_double_cases:
  obtains (fail) "to_double a = Inl OverflowError" "too_large a"
  | (ok) x where "to_double a = Inr x" "\<not> too_large a"
proof (cases "to_double a")
  case (Inl e)
  then show ?thesis using fail to_double_Inl_iff [of a e] by simp
next
  case (Inr x)
  then show ?thesis using ok to_double_Inl_iff [of a OverflowError] by auto
qed

lemma float_op_total_Inl_iff:
  "float_op (\<lambda>x y. Inr (f x y)) a b = Inl e \<longleftrightarrow> e = OverflowError \<and> (too_large a \<or> too_large b)"
  by (cases a rule: to_double_cases; cases b rule: to_double_cases)
     (auto simp: float_op_def)

lemma fadd_commute: "fadd x y = fadd y x"
  by (cases x; cases y) (auto simp: add.commute conj_commute Let_def)

lemma fmul_commute: "fmul x y = fmul y x"
  by (cases x; cases y) (auto simp: mult.commute intro!: arg_cong2 [where f = round_float])

lemma float_op_commute:
  assumes "\<And>x y. f x y = f y x"
  shows "float_op (\<lambda>x y. Inr (f x y)) a b = float_op (\<lambda>x y. Inr (f x y)) b a"
  by (cases a rule: to_double_cases; cases b rule: to_double_cases)
     (auto simp: float_op_def assms)

lemma py_add_commute: "py_add a b = py_add b a"
  by (cases a; cases b) (simp_all add: float_op_commute [of fadd, OF fadd_commute] add.commute)

lemma feq_refl: "x \<noteq> FNaN \<Longrightarrow> feq x x"
  by (cases x) auto

lemma py_eq_refl: "a \<noteq> PFloat FNaN \<Longrightarrow> py_eq a a"
  by (cases a) (auto simp: feq_refl)



lemma round_float_neg: "fneg (round_float s q) = round_float (\<not> s) q"
  by (cases "round_mag q") (simp_all add: round_float_def)

lemma round_float_not_nan [simp]: "round_float s q \<noteq> FNaN"
  by (cases "round_mag q") (simp_all add: round_float_def)

lemma fsub_FNum:
  "fsub (FNum s p) (FNum t q) =
     (if signed s p - signed t q = 0 then FNum (s \<and> \<not> t) 0
      else round_float (signed s p - signed t q < 0) \<bar>signed s p - signed t q\<bar>)"
proof -
  have "signed s p + signed (\<not> t) q = signed s p - signed t q"
    by (simp add: signed_def)
  then show ?thesis by (simp add: fsub_def Let_def)
qed

lemma fsub_nan_iff: "fsub x y = FNaN \<longleftrightarrow> fsub y x = FNaN"
  by (cases x; cases y) (auto simp: fsub_def Let_def)

lemma fsub_antisym:
  assumes "fsub x y \<noteq> FNaN"
  shows "feq (fsub x y) (fneg (fsub y x))"
proof (cases x)
  case FNaN
  then show ?thesis using assms by (simp add: fsub_def)
next
  case (FInf s)
  then show ?thesis using assms by (cases y) (auto simp: fsub_def split: if_splits)
next
  case x: (FNum s p)
  show ?thesis
  proof (cases y)
    case FNaN
    then show ?thesis using assms x by (simp add: fsub_def)
  next
    case (FInf t)
    then show ?thesis using x by (simp add: fsub_def)
  next
    case y: (FNum t q)
    define r where "r = signed s p - signed t q"
    have xy: "fsub x y = (if r = 0 then FNum (s \<and> \<not> t) 0 else round_float (r < 0) \<bar>r\<bar>)"
      unfolding x y r_def by (rule fsub_FNum)
    have "signed t q - signed s p = - r" by (simp add: r_def)
    then have yx: "fsub y x = (if r = 0 then FNum (t \<and> \<not> s) 0 else round_float (- r < 0) \<bar>r\<bar>)"
      unfolding x y using fsub_FNum [of t q s p] by simp
    show ?thesis
    proof (cases "r = 0")
      case True
      then show ?thesis by (simp add: xy yx signed_def)
    next
      case False
      then have "(\<not> - r < 0) = (r < 0)" by auto
      then have "fneg (fsub y x) = fsub x y"
        using False by (simp add: xy yx round_float_neg)
      moreover have "fsub x y \<noteq> FNaN" by (rule assms)
      ultimately show ?thesis by (simp add: feq_refl)
    qed
  qed
qed

lemma float_op_total_Inr:
  "float_op (\<lambda>x y. Inr (f x y)) a b = Inr r \<longleftrightarrow>
     (\<exists>x y. to_double a = Inr x \<and> to_double b = Inr y \<and> r = PFloat (f x y))"
  by (auto simp: float_op_def split: sum.splits)

lemma py_sub_Inl_commute: "py_sub a b = Inl e \<longleftrightarrow> py_sub b a = Inl e"
  by (cases a; cases b) (auto simp: float_op_total_Inl_iff)

lemma py_sub_nan_iff: "py_sub a b = Inr (PFloat FNaN) \<longleftrightarrow> py_sub b a = Inr (PFloat FNaN)"
  using fsub_nan_iff [of _ _, symmetric]
  by (cases a; cases b) (auto simp: float_op_total_Inr eq_commute [of FNaN] fsub_nan_iff)

lemma py_sub_antisym:
  assumes "py_sub a b = Inr r" and "r \<noteq> PFloat FNaN"
  shows "\<exists>r'. py_sub b a = Inr r' \<and> py_eq r (py_neg r')"
proof (cases "\<exists>i j. a = PInt i \<and> b = PInt j")
  case True
  then show ?thesis using assms by auto
next
  case False
  then have ab: "py_sub a b = float_op (\<lambda>x y. Inr (fsub x y)) a b"
    and ba: "py_sub b a = float_op (\<lambda>x y. Inr (fsub x y)) b a"
    by (cases a; cases b; simp)+
  from assms(1) obtain x y where xy: "to_double a = Inr x" "to_double b = Inr y"
    and r: "r = PFloat (fsub x y)"
    unfolding ab float_op_total_Inr by blast
  have "py_sub b a = Inr (PFloat (fsub y x))"
    unfolding ba float_op_total_Inr using xy by simp
  moreover have "feq (fsub x y) (fneg (fsub y x))"
    using assms(2) r by (intro fsub_antisym) auto
  ultimately show ?thesis by (simp add: r)
qed


lemma signed_eq_0_iff [simp]: "signed s q = 0 \<longleftrightarrow> q = 0"
  by (simp add: signed_def)

lemma round_mag_nonzero: "1 \<le> q \<Longrightarrow> round_mag q \<noteq> Some 0"
  using round_mag_ge_pow2 [of 0 q 0] by auto

lemma py_eq_zero_iff: "py_eq b (PInt 0) \<longleftrightarrow> b = PInt 0 \<or> (\<exists>s. b = PFloat (FNum s 0))"
proof (cases b)
  case (PInt j)
  then show ?thesis by simp
next
  case (PFloat y)
  then show ?thesis by (cases y) auto
qed

lemma float_of_int_nonzero:
  assumes "j \<noteq> 0" and "float_of_int j = Inr y"
  shows "\<not> fzero y"
proof -
  have "1 \<le> \<bar>j\<bar>" using assms(1) by linarith
  then have "(of_int 1 :: rat) \<le> of_int \<bar>j\<bar>" using of_int_le_iff by blast
  then have "1 \<le> \<bar>of_int j :: rat\<bar>" by simp
  then have "round_mag \<bar>of_int j\<bar> \<noteq> Some 0" by (rule round_mag_nonzero)
  then show ?thesis
    using assms(2) by (auto simp: float_of_int_def split: option.splits)
qed

lemma to_double_nonzero:
  assumes "\<not> py_eq b (PInt 0)" and "to_double b = Inr y"
  shows "\<not> fzero y"
proof (cases b)
  case (PInt j)
  then show ?thesis using assms float_of_int_nonzero [of j y] by simp
next
  case (PFloat z)
  then show ?thesis using assms by (cases z) auto
qed

lemma int_truediv_eq:
  assumes "j \<noteq> 0"
  shows "int_truediv i j =
     (if pow2 1024 - pow2 970 \<le> \<bar>of_int i\<bar> / \<bar>of_int j\<bar> then Inl OverflowError
      else Inr (FNum ((i < 0) \<noteq> (j < 0)) (the (round_mag (\<bar>of_int i\<bar> / \<bar>of_int j\<bar>)))))"
proof -
  have "round_mag (\<bar>of_int i\<bar> / \<bar>of_int j\<bar>) = None
        \<longleftrightarrow> pow2 1024 - pow2 970 \<le> \<bar>of_int i :: rat\<bar> / \<bar>of_int j\<bar>"
    by (rule round_mag_None_iff) simp
  then show ?thesis
    using assms by (cases "round_mag (\<bar>of_int i\<bar> / \<bar>of_int j\<bar>)") (auto simp: int_truediv_def)
qed

lemma float_op_fdiv_Inl_iff:
  assumes "\<not> py_eq b (PInt 0)"
  shows "float_op fdiv a b = Inl e \<longleftrightarrow> e = OverflowError \<and> (too_large a \<or> too_large b)"
proof (cases a rule: to_double_cases)
  case fail
  then show ?thesis by (auto simp: float_op_def)
next
  case a: (ok x)
  show ?thesis
  proof (cases b rule: to_double_cases)
    case fail
    then show ?thesis using a by (auto simp: float_op_def)
  next
    case (ok y)
    then show ?thesis
      using a to_double_nonzero [OF assms ok(1)] by (simp add: float_op_def fdiv_def)
  qed
qed

lemma py_truediv_Inl_iff:
  assumes "\<not> py_eq b (PInt 0)"
  shows "py_truediv a b = Inl e \<longleftrightarrow> e = OverflowError \<and> quotient_too_large a b"
proof (cases "\<exists>i j. a = PInt i \<and> b = PInt j")
  case True
  then obtain i j where ab: "a = PInt i" "b = PInt j" by blast
  then have "j \<noteq> 0" using assms by simp
  then show ?thesis by (auto simp: ab int_truediv_eq)
next
  case False
  then have "py_truediv a b = float_op fdiv a b"
    and "quotient_too_large a b = (too_large a \<or> too_large b)"
    by (cases a; cases b; simp)+
  then show ?thesis using float_op_fdiv_Inl_iff [OF assms] by simp
qed

lemma py_truediv_is_float: "py_truediv a b = Inr r \<Longrightarrow> is_float r"
  by (cases a; cases b) (auto simp: float_op_def split: sum.splits)

lemma py_truediv_ints_finite: "py_truediv (PInt i) (PInt j) \<noteq> Inr (PFloat (FInf s))"
  by (auto simp: int_truediv_def split: option.splits sum.splits)

lemma signed_mult: "signed s p * signed t q = signed (s \<noteq> t) (p * q)"
  by (simp add: signed_def)

lemma signed_divide: "signed s p / signed t q = signed (s \<noteq> t) (p / q)"
  by (simp add: signed_def)

lemma abs_signed: "0 \<le> q \<Longrightarrow> \<bar>signed s q\<bar> = q"
  by (simp add: signed_def)

lemma signed_diff_abs: "\<bar>signed s a - signed s b\<bar> = \<bar>a - b\<bar>"
  by (simp add: signed_def abs_minus_commute)

lemma signed_of_sign: "signed (r < 0) \<bar>r\<bar> = r"
  by (simp add: signed_def)

lemma round_float_accurate:
  assumes "pow2 (- 1022) \<le> r" and "r \<le> pow2 1023"
  shows "\<exists>v. round_float s r = FNum s v \<and> \<bar>v - r\<bar> \<le> pow2 (- 53) * r"
proof -
  have "0 \<le> r" using assms(1) pow2_pos [of "- 1022"] by linarith
  then obtain v where v: "round_mag r = Some v"
    using round_mag_finite [OF _ assms(2)] by blast
  then show ?thesis
    using round_mag_rel_err [OF assms(1) v] by (simp add: round_float_def)
qed

lemma round_float_signed_accurate:
  assumes "pow2 (- 1022) \<le> \<bar>r\<bar>" and "\<bar>r\<bar> \<le> pow2 1023"
  shows "\<exists>v. round_float (r < 0) \<bar>r\<bar> = FNum (r < 0) v
             \<and> \<bar>signed (r < 0) v - r\<bar> \<le> pow2 (- 53) * \<bar>r\<bar>"
proof -
  obtain v where v: "round_float (r < 0) \<bar>r\<bar> = FNum (r < 0) v"
      "\<bar>v - \<bar>r\<bar>\<bar> \<le> pow2 (- 53) * \<bar>r\<bar>"
    using round_float_accurate [OF assms] by blast
  have "\<bar>signed (r < 0) v - r\<bar> = \<bar>signed (r < 0) v - signed (r < 0) \<bar>r\<bar>\<bar>"
    by (simp only: signed_of_sign)
  also have "\<dots> = \<bar>v - \<bar>r\<bar>\<bar>" by (rule signed_diff_abs)
  finally show ?thesis using v by simp
qed

lemma fadd_accurate:
  assumes "pow2 (- 1022) \<le> \<bar>signed s p + signed t q\<bar>"
    and "\<bar>signed s p + signed t q\<bar> \<le> pow2 1023"
  shows "\<exists>u v. fadd (FNum s p) (FNum t q) = FNum u v
             \<and> \<bar>signed u v - (signed s p + signed t q)\<bar>
                 \<le> pow2 (- 53) * \<bar>signed s p + signed t q\<bar>"
proof -
  have "signed s p + signed t q \<noteq> 0"
    using assms(1) by auto
  then show ?thesis
    using round_float_signed_accurate [OF assms] by (auto simp: Let_def)
qed

lemma fmul_accurate:
  assumes "0 \<le> p" and "0 \<le> q"
    and "pow2 (- 1022) \<le> \<bar>signed s p * signed t q\<bar>"
    and "\<bar>signed s p * signed t q\<bar> \<le> pow2 1023"
  shows "\<exists>u v. fmul (FNum s p) (FNum t q) = FNum u v
             \<and> \<bar>signed u v - signed s p * signed t q\<bar>
                 \<le> pow2 (- 53) * \<bar>signed s p * signed t q\<bar>"
proof -
  have a: "\<bar>signed s p * signed t q\<bar> = p * q"
    using assms(1,2) by (simp add: signed_mult abs_signed)
  obtain v where v: "round_float (s \<noteq> t) (p * q) = FNum (s \<noteq> t) v"
      "\<bar>v - p * q\<bar> \<le> pow2 (- 53) * (p * q)"
    using round_float_accurate [of "p * q" "s \<noteq> t"] assms(3,4) unfolding a by blast
  have "\<bar>signed (s \<noteq> t) v - signed s p * signed t q\<bar> = \<bar>v - p * q\<bar>"
    by (simp only: signed_mult signed_diff_abs)
  then show ?thesis using v unfolding a by auto
qed

lemma fquot_accurate:
  assumes "0 \<le> p" and "0 \<le> q"
    and "pow2 (- 1022) \<le> \<bar>signed s p / signed t q\<bar>"
    and "\<bar>signed s p / signed t q\<bar> \<le> pow2 1023"
  shows "\<exists>u v. fquot (FNum s p) (FNum t q) = FNum u v
             \<and> \<bar>signed u v - signed s p / signed t q\<bar>
                 \<le> pow2 (- 53) * \<bar>signed s p / signed t q\<bar>"
proof -
  have a: "\<bar>signed s p / signed t q\<bar> = p / q"
    using assms(1,2) by (simp add: signed_divide abs_signed)
  obtain v where v: "round_float (s \<noteq> t) (p / q) = FNum (s \<noteq> t) v"
      "\<bar>v - p / q\<bar> \<le> pow2 (- 53) * (p / q)"
    using round_float_accurate [of "p / q" "s \<noteq> t"] assms(3,4) unfolding a by blast
  have "\<bar>signed (s \<noteq> t) v - signed s p / signed t q\<bar> = \<bar>v - p / q\<bar>"
    by (simp only: signed_divide signed_diff_abs)
  then show ?thesis using v unfolding a by auto
qed

lemma int_quotient_signed:
  "signed ((i < 0) \<noteq> (j < 0)) (\<bar>of_int i\<bar> / \<bar>of_int j\<bar>) = of_int i / of_int j"
  by (auto simp: signed_def abs_if not_less)

lemma int_truediv_accurate:
  assumes "j \<noteq> 0"
    and "pow2 (- 1022) \<le> \<bar>of_int i / of_int j :: rat\<bar>"
    and "\<bar>of_int i / of_int j :: rat\<bar> \<le> pow2 1023"
  shows "\<exists>u v. int_truediv i j = Inr (FNum u v)
             \<and> \<bar>signed u v - of_int i / of_int j\<bar> \<le> pow2 (- 53) * \<bar>of_int i / of_int j\<bar>"
proof -
  let ?r = "\<bar>of_int i\<bar> / \<bar>of_int j\<bar> :: rat"
  have a: "\<bar>of_int i / of_int j :: rat\<bar> = ?r" by simp
  have r0: "0 \<le> ?r" by simp
  obtain v where v: "round_mag ?r = Some v"
    using round_mag_finite [OF r0] assms(3) unfolding a by blast
  have "\<bar>v - ?r\<bar> \<le> pow2 (- 53) * ?r"
    using round_mag_rel_err [OF _ v] assms(2) unfolding a by blast
  moreover have "\<bar>signed ((i < 0) \<noteq> (j < 0)) v - of_int i / of_int j\<bar> = \<bar>v - ?r\<bar>"
    using signed_diff_abs [of "(i < 0) \<noteq> (j < 0)" v ?r]
    by (simp only: int_quotient_signed)
  ultimately show ?thesis
    using assms(1) v unfolding a by (simp add: int_truediv_def)
qed

lemma int_truediv_exact:
  assumes "j \<noteq> 0" and "j dvd i" and "\<bar>i div j\<bar> \<le> 2 ^ 53"
  shows "int_truediv i j = Inr (FNum ((i < 0) \<noteq> (j < 0)) (of_int \<bar>i div j\<bar>))"
proof -
  have "(of_int i :: rat) / of_int j = of_int (i div j)"
  proof -
    have "i = (i div j) * j" using assms(2) by simp
    then have "(of_int i :: rat) = of_int (i div j) * of_int j"
      by (metis of_int_mult)
    then show ?thesis using assms(1) by simp
  qed
  then have "\<bar>of_int i :: rat\<bar> / \<bar>of_int j\<bar> = of_int \<bar>i div j\<bar>"
    by (metis abs_divide of_int_abs)
  then show ?thesis
    using assms(1) round_mag_of_int [OF _ assms(3)] by (simp add: int_truediv_def)
qed

lemma unconvertible_ints [simp]: "\<not> unconvertible (PInt i) (PInt j)"
  by (simp add: unconvertible_def)

lemma unconvertible_float [simp]:
  "unconvertible (PFloat x) b = too_large b" "unconvertible a (PFloat y) = too_large a"
  by (simp_all add: unconvertible_def)

lemma py_add_Inl_iff: "py_add a b = Inl e \<longleftrightarrow> e = OverflowError \<and> unconvertible a b"
  by (cases a; cases b) (auto simp: float_op_total_Inl_iff)

lemma py_sub_Inl_iff: "py_sub a b = Inl e \<longleftrightarrow> e = OverflowError \<and> unconvertible a b"
  by (cases a; cases b) (auto simp: float_op_total_Inl_iff)

lemma py_mul_Inl_iff: "py_mul a b = Inl e \<longleftrightarrow> e = OverflowError \<and> unconvertible a b"
  by (cases a; cases b) (auto simp: float_op_total_Inl_iff)

lemma py_add_is_float: "py_add a b = Inr r \<Longrightarrow> is_float r = (is_float a \<or> is_float b)"
  by (cases a; cases b) (auto simp: float_op_total_Inr)

lemma py_sub_is_float: "py_sub a b = Inr r \<Longrightarrow> is_float r = (is_float a \<or> is_float b)"
  by (cases a; cases b) (auto simp: float_op_total_Inr)

lemma py_mul_is_float: "py_mul a b = Inr r \<Longrightarrow> is_float r = (is_float a \<or> is_float b)"
  by (cases a; cases b) (auto simp: float_op_total_Inr)

lemma exact_PFloat_Some: "exact (PFloat x) = Some u \<longleftrightarrow> (\<exists>s p. x = FNum s p \<and> u = signed s p)"
  by (cases x) auto

lemma float_op_floats [simp]:
  "float_op (\<lambda>x y. Inr (f x y)) (PFloat x) (PFloat y) = Inr (PFloat (f x y))"
  by (simp add: float_op_def)

lemma too_large_2_1024: "pow2 1024 - pow2 970 \<le> \<bar>of_int (2 ^ 1024)\<bar>"
proof -
  have "pow2 1024 = 2 ^ 1024" by (simp add: pow2_def)
  then have "pow2 1024 \<le> \<bar>of_int (2 ^ 1024)\<bar>" by simp
  moreover have "pow2 1024 - pow2 970 \<le> pow2 1024" by simp
  ultimately show ?thesis by (rule order_trans [rotated])
qed

lemma unconvertible_2_1024: "unconvertible (PInt (2 ^ 1024)) (PFloat x)"
  using too_large_2_1024 by (simp only: unconvertible_float too_large.simps)

lemma fsub_accurate:
  assumes "pow2 (- 1022) \<le> \<bar>signed s p - signed t q\<bar>"
    and "\<bar>signed s p - signed t q\<bar> \<le> pow2 1023"
  shows "\<exists>u v. fsub (FNum s p) (FNum t q) = FNum u v
             \<and> \<bar>signed u v - (signed s p - signed t q)\<bar>
                 \<le> pow2 (- 53) * \<bar>signed s p - signed t q\<bar>"
proof -
  have "signed s p - signed t q \<noteq> 0"
    using assms(1) by auto
  then show ?thesis
    using round_float_signed_accurate [OF assms] by (auto simp: fsub_FNum)
qed

lemma int_quotient_exact:
  assumes "j \<noteq> 0" and "j dvd i"
  shows "(of_int i :: rat) / of_int j = of_int (i div j)"
proof -
  have "i = (i div j) * j" using assms(2) by simp
  then have "(of_int i :: rat) = of_int (i div j) * of_int j"
    by (metis of_int_mult)
  then show ?thesis using assms(1) by simp
qed

lemma quotient_too_large_2_1024: "quotient_too_large (PInt (2 ^ 1024)) (PInt 1)"
  using too_large_2_1024 by (simp only: quotient_too_large.simps of_int_1 abs_one div_by_1)

lemma divide_py_nonzero: "\<not> py_eq b (PInt 0) \<Longrightarrow> divide_py a b = py_truediv a b"
  by (simp add: divide_py_def)

lemma divide_py_accurate:
  assumes "is_num a" and "is_num b" and "is_float a = is_float b"
    and "exact a = Some u" and "exact b = Some w" and "w \<noteq> 0"
    and "pow2 (- 1022) \<le> \<bar>u / w\<bar>" and "\<bar>u / w\<bar> \<le> pow2 1023"
  shows "\<exists>z v. divide_py a b = Inr (PFloat z) \<and> exact (PFloat z) = Some v
             \<and> \<bar>v - u / w\<bar> \<le> pow2 (- 53) * \<bar>u / w\<bar>"
proof (cases a)
  case a: (PInt i)
  then obtain j where b: "b = PInt j" using assms(3) by (cases b) auto
  have u: "u = of_int i" and w: "w = of_int j" and j: "j \<noteq> 0"
    using assms(4-6) by (auto simp: a b)
  obtain s v where "int_truediv i j = Inr (FNum s v)"
    "\<bar>signed s v - u / w\<bar> \<le> pow2 (- 53) * \<bar>u / w\<bar>"
    using int_truediv_accurate [OF j, of i] assms(7,8) unfolding u w by blast
  then show ?thesis
    using j by (intro exI [of _ "FNum s v"] exI [of _ "signed s v"])
      (simp add: a b divide_py_def)
next
  case a: (PFloat x)
  then obtain y where b: "b = PFloat y" using assms(3) by (cases b) auto
  obtain s p t q where x: "x = FNum s p" "u = signed s p" and y: "y = FNum t q" "w = signed t q"
    using assms(4,5) unfolding a b exact_PFloat_Some by blast
  have pq: "0 \<le> p" "0 \<le> q" and q: "q \<noteq> 0"
    using assms(1,2,6) by (simp_all add: a b x y)
  obtain s' v where "fquot (FNum s p) (FNum t q) = FNum s' v"
    "\<bar>signed s' v - u / w\<bar> \<le> pow2 (- 53) * \<bar>u / w\<bar>"
    using fquot_accurate [OF pq, of s t] assms(7,8) unfolding x y by blast
  then show ?thesis
    using q by (intro exI [of _ "FNum s' v"] exI [of _ "signed s' v"])
      (simp add: a b x y divide_py_def float_op_def fdiv_def)
qed

lemma divide_py_exact:
  assumes "j \<noteq> 0" and "j dvd i" and "\<bar>i div j\<bar> \<le> 2 ^ 53"
  shows "\<exists>z. divide_py (PInt i) (PInt j) = Inr (PFloat z) \<and> py_eq (PFloat z) (PInt (i div j))"
proof -
  let ?s = "(i < 0) \<noteq> (j < 0)"
  have "signed ?s (\<bar>of_int i\<bar> / \<bar>of_int j\<bar>) = of_int (i div j)"
    by (simp only: int_quotient_signed int_quotient_exact [OF assms(1,2)])
  moreover have "\<bar>of_int i :: rat\<bar> / \<bar>of_int j\<bar> = of_int \<bar>i div j\<bar>"
    using int_quotient_exact [OF assms(1,2)] by (metis abs_divide of_int_abs)
  ultimately have "signed ?s (of_int \<bar>i div j\<bar>) = of_int (i div j)" by simp
  then show ?thesis
    using assms(1) int_truediv_exact [OF assms]
    by (intro exI [of _ "FNum ?s (of_int \<bar>i div j\<bar>)"]) (simp add: divide_py_def)
qed

subsection \<open>Accumulated rounding errors\<close>

lemma eps_bounds: "0 < pow2 (- 53)" "pow2 (- 53) \<le> 1 / 16"
  using pow2_mono [of "- 53" "- 4"] by (simp_all add: pow2_def)

lemma near_refl: "near 0 x x"
  by (simp add: near_def)

lemma near_mono:
  assumes "near j x y" and "j \<le> k" and "0 \<le> x"
  shows "near k x y"
proof -
  have "(1 + pow2 (- 53)) ^ j \<le> (1 + pow2 (- 53)) ^ k"
    using assms(2) eps_bounds by (intro power_increasing) auto
  then have "(1 + pow2 (- 53)) ^ j * x \<le> (1 + pow2 (- 53)) ^ k * x"
    using assms(3) by (rule mult_right_mono)
  moreover have "(1 - pow2 (- 53)) ^ k \<le> (1 - pow2 (- 53)) ^ j"
    using assms(2) eps_bounds by (intro power_decreasing) auto
  then have "(1 - pow2 (- 53)) ^ k * x \<le> (1 - pow2 (- 53)) ^ j * x"
    using assms(3) by (rule mult_right_mono)
  ultimately show ?thesis using assms(1) by (auto simp: near_def)
qed

lemma near_nonneg: "near k x y \<Longrightarrow> 0 \<le> x \<Longrightarrow> 0 \<le> y"
proof -
  assume a: "near k x y" "0 \<le> x"
  have "0 \<le> (1 - pow2 (- 53)) ^ k" using eps_bounds by (intro zero_le_power) auto
  then have "0 \<le> (1 - pow2 (- 53)) ^ k * x" using a(2) by simp
  then show ?thesis using a(1) by (auto simp: near_def)
qed

lemma near_trans:
  assumes "near j x y" and "near k y z" and "0 \<le> x"
  shows "near (j + k) x z"
proof -
  have up: "0 \<le> (1 + pow2 (- 53)) ^ k" and lo: "0 \<le> (1 - pow2 (- 53)) ^ k"
    using eps_bounds by (auto intro!: zero_le_power)
  have "z \<le> (1 + pow2 (- 53)) ^ k * y" using assms(2) by (simp add: near_def)
  also have "\<dots> \<le> (1 + pow2 (- 53)) ^ k * ((1 + pow2 (- 53)) ^ j * x)"
    using assms(1) up by (intro mult_left_mono) (auto simp: near_def)
  finally have 1: "z \<le> (1 + pow2 (- 53)) ^ (j + k) * x"
    by (simp add: power_add mult_ac)
  have "(1 - pow2 (- 53)) ^ k * ((1 - pow2 (- 53)) ^ j * x) \<le> (1 - pow2 (- 53)) ^ k * y"
    using assms(1) lo by (intro mult_left_mono) (auto simp: near_def)
  also have "\<dots> \<le> z" using assms(2) by (simp add: near_def)
  finally have 2: "(1 - pow2 (- 53)) ^ (j + k) * x \<le> z"
    by (simp add: power_add mult_ac)
  show ?thesis using 1 2 by (simp add: near_def)
qed

lemma near_scale:
  assumes "near k x y" and "0 \<le> c"
  shows "near k (x * c) (y * c)"
proof -
  have "(1 - pow2 (- 53)) ^ k * x * c \<le> y * c" "y * c \<le> (1 + pow2 (- 53)) ^ k * x * c"
    using assms by (auto simp: near_def intro: mult_right_mono)
  then show ?thesis by (simp add: near_def mult.assoc)
qed

lemma near_mult:
  assumes "near j x y" and "near k x' y'" and "0 \<le> x" and "0 \<le> x'"
  shows "near (j + k) (x * x') (y * y')"
proof -
  have 1: "near j (x * x') (y * x')" using assms(1,4) by (rule near_scale)
  have y: "0 \<le> y" using assms(1,3) by (rule near_nonneg)
  have "near k (x' * y) (y' * y)" using assms(2) y by (rule near_scale)
  then have 2: "near k (y * x') (y * y')" by (simp add: mult.commute)
  show ?thesis using 1 2 by (rule near_trans) (use assms(3,4) in simp)
qed

lemma near_round:
  assumes "pow2 (- 1022) \<le> q" and "round_mag q = Some v"
  shows "near 1 q v"
proof -
  have "\<bar>v - q\<bar> \<le> pow2 (- 53) * q" using assms by (rule round_mag_rel_err)
  then show ?thesis by (simp add: near_def abs_le_iff algebra_simps)
qed

lemma cube_bounds:
  fixes e :: rat
  assumes "0 < e" and "e \<le> 1 / 16"
  shows "(1 + e) ^ 3 \<le> 1 + 4 * e" and "1 - 4 * e \<le> (1 - e) ^ 3"
proof -
  have e2: "e * e \<le> e / 16"
    using mult_left_mono [OF assms(2), of e] assms(1) by simp
  have e3: "0 \<le> e * e * e" "e * e * e \<le> e / 16"
  proof -
    show "0 \<le> e * e * e" using assms(1) by simp
    have "e * e * e \<le> (e / 16) * e" using e2 assms(1) by (intro mult_right_mono) auto
    also have "\<dots> \<le> e / 16" using assms by (simp add: mult_left_le)
    finally show "e * e * e \<le> e / 16" .
  qed
  have "0 \<le> e * e" using assms(1) by simp
  have p: "(1 + e) ^ 3 = 1 + 3 * e + 3 * (e * e) + e * e * e"
    "(1 - e) ^ 3 = 1 - 3 * e + 3 * (e * e) - e * e * e"
    by (simp_all add: power3_eq_cube algebra_simps)
  show "(1 + e) ^ 3 \<le> 1 + 4 * e" unfolding p using e2 e3 by linarith
  show "1 - 4 * e \<le> (1 - e) ^ 3" unfolding p using e2 e3 \<open>0 \<le> e * e\<close> by linarith
qed

lemma near_3_close:
  assumes "near 3 x y" and "0 \<le> x"
  shows "\<bar>y - x\<bar> \<le> pow2 (- 51) * x"
proof -
  have 4: "pow2 (- 51) = 4 * pow2 (- 53)"
    using pow2_add [of 2 "- 53"] by (simp add: pow2_def)
  have "y \<le> (1 + pow2 (- 53)) ^ 3 * x" using assms(1) by (simp add: near_def)
  also have "\<dots> \<le> (1 + 4 * pow2 (- 53)) * x"
    using cube_bounds(1) [OF eps_bounds] assms(2) by (rule mult_right_mono)
  finally have 1: "y - x \<le> pow2 (- 51) * x" by (simp add: 4 algebra_simps)
  have "(1 - 4 * pow2 (- 53)) * x \<le> (1 - pow2 (- 53)) ^ 3 * x"
    using cube_bounds(2) [OF eps_bounds] assms(2) by (rule mult_right_mono)
  also have "\<dots> \<le> y" using assms(1) by (simp add: near_def)
  finally have 2: "x - y \<le> pow2 (- 51) * x" by (simp add: 4 algebra_simps)
  show ?thesis using 1 2 by (simp add: abs_le_iff)
qed

lemma near_3_factor2:
  assumes "near 3 x y" and "0 \<le> x"
  shows "x / 2 \<le> y" and "y \<le> 2 * x"
proof -
  have "\<bar>y - x\<bar> \<le> pow2 (- 51) * x" using assms by (rule near_3_close)
  moreover have "pow2 (- 51) \<le> 1 / 2"
    using pow2_mono [of "- 51" "- 1"] by (simp add: pow2_def)
  then have "pow2 (- 51) * x \<le> (1 / 2) * x" using assms(2) by (rule mult_right_mono)
  ultimately show "x / 2 \<le> y" and "y \<le> 2 * x" by (simp_all add: abs_le_iff)
qed

lemma pow2_double: "2 * pow2 k = pow2 (k + 1)" "pow2 k / 2 = pow2 (k - 1)"
  by (simp_all add: pow2_add pow2_diff pow2_1)

lemma near_step: "near k x y \<Longrightarrow> k \<le> 3 \<Longrightarrow> 0 \<le> x \<Longrightarrow> x / 2 \<le> y \<and> y \<le> 2 * x"
  using near_3_factor2 [of x y] near_mono [of k x y 3] by blast

lemma round_float_near:
  assumes "near 2 A r" and "pow2 (- 1021) \<le> A" and "A \<le> pow2 1022"
  shows "\<exists>p. round_float s r = FNum s p \<and> near 3 A p"
proof -
  have A: "0 \<le> A" using assms(2) pow2_pos [of "- 1021"] by linarith
  have "A / 2 \<le> r" "r \<le> 2 * A" using near_step [OF assms(1) _ A] by simp_all
  moreover have "pow2 (- 1021) / 2 \<le> A / 2" "2 * A \<le> 2 * pow2 1022"
    using assms(2,3) by simp_all
  ultimately have r: "pow2 (- 1022) \<le> r" "r \<le> pow2 1023"
    using pow2_double(2) [of "- 1021"] pow2_double(1) [of 1022] by simp_all
  then have "0 \<le> r" using pow2_pos [of "- 1022"] by linarith
  then obtain p where p: "round_mag r = Some p"
    using round_mag_finite r(2) by blast
  have "near 1 r p" using r(1) p by (rule near_round)
  then have "near (2 + 1) A p" using assms(1) A by (intro near_trans [of 2 A r 1 p])
  then show ?thesis using p by (simp add: round_float_def)
qed

lemma to_double_near:
  assumes "is_num a" and "exact a = Some u" and "u \<noteq> 0" and "\<bar>u\<bar> \<le> pow2 1023"
  shows "\<exists>m. to_double a = Inr (FNum (u < 0) m) \<and> near 1 \<bar>u\<bar> m"
proof (cases a)
  case (PInt i)
  then have u: "u = of_int i" using assms(2) by simp
  then have "i \<noteq> 0" using assms(3) by auto
  then have "1 \<le> \<bar>i\<bar>" by linarith
  then have "(of_int 1 :: rat) \<le> of_int \<bar>i\<bar>" using of_int_le_iff by blast
  then have 1: "1 \<le> \<bar>u\<bar>" by (simp add: u)
  have "pow2 (- 1022) \<le> pow2 0" by (rule pow2_mono) simp
  then have lo: "pow2 (- 1022) \<le> \<bar>u\<bar>" using 1 by simp
  obtain m where m: "round_mag \<bar>u\<bar> = Some m"
    using round_mag_finite [of "\<bar>u\<bar>"] assms(4) by auto
  have "near 1 \<bar>u\<bar> m" using lo m by (rule near_round)
  moreover have "(i < 0) = (u < 0)" by (simp add: u)
  ultimately show ?thesis using m by (simp add: PInt float_of_int_def u)
next
  case (PFloat x)
  then obtain s p where x: "x = FNum s p" and u: "u = signed s p"
    using assms(2) by (auto simp: PFloat exact_PFloat_Some)
  have p: "0 < p" using assms(1,3) by (auto simp: PFloat x u)
  then have "(u < 0) = s" "\<bar>u\<bar> = p" by (auto simp: u signed_def)
  moreover have "near 1 p p" using near_refl [of p] p by (intro near_mono [of 0 p p 1]) auto
  ultimately show ?thesis by (simp add: PFloat x)
qed

lemma exact_nonzero: "exact b = Some w \<Longrightarrow> w \<noteq> 0 \<Longrightarrow> \<not> py_eq b (PInt 0)"
  by (auto simp: py_eq_zero_iff)

lemma quotient_range:
  assumes "A / 2 \<le> x" "x \<le> 2 * A" "B / 2 \<le> y" "y \<le> 2 * B" "0 < A" "0 < B"
    and "pow2 (- 1020) \<le> A / B" and "A / B \<le> pow2 1021"
  shows "pow2 (- 1022) \<le> x / y" and "x / y \<le> pow2 1023"
proof -
  have y: "0 < y" using assms(3,6) by linarith
  have x: "0 < x" using assms(1,5) by linarith
  have "x / y \<le> 2 * A / y" using assms(2) y by (simp add: divide_right_mono)
  also have "\<dots> \<le> 2 * A / (B / 2)"
    using assms(3,5,6) by (intro divide_left_mono) auto
  also have "\<dots> = 4 * (A / B)" by simp
  also have "\<dots> \<le> 4 * pow2 1021" using assms(8) by simp
  also have "\<dots> = pow2 1023" using pow2_add [of 2 1021] by (simp add: pow2_def)
  finally show "x / y \<le> pow2 1023" .
  have "pow2 (- 1022) = pow2 (- 1020) / 4"
    using pow2_diff [of "- 1020" 2] by (simp add: pow2_def)
  also have "\<dots> \<le> (A / B) / 4" using assms(7) by simp
  also have "\<dots> = (A / 2) / (2 * B)" by simp
  also have "\<dots> \<le> x / (2 * B)" using assms(1,6) by (intro divide_right_mono) auto
  also have "\<dots> \<le> x / y" using assms(4) x y by (intro divide_left_mono) auto
  finally show "pow2 (- 1022) \<le> x / y" .
qed

lemma roundtrip_near:
  assumes "is_num a" and "is_num b" and "exact a = Some u" and "exact b = Some w"
    and "w \<noteq> 0" and "\<bar>w\<bar> \<le> pow2 1023"
    and "pow2 (- 1021) \<le> \<bar>u\<bar>" and "\<bar>u\<bar> \<le> pow2 1022"
    and "pow2 (- 1020) \<le> \<bar>u / w\<bar>" and "\<bar>u / w\<bar> \<le> pow2 1021"
  shows "\<exists>p. roundtrip a b = Inr (PFloat (FNum (u < 0) p)) \<and> near 3 \<bar>u\<bar> p"
proof -
  have A: "0 < \<bar>u\<bar>" using assms(7) pow2_pos [of "- 1021"] by linarith
  then have u0: "u \<noteq> 0" by simp
  have B: "0 < \<bar>w\<bar>" using assms(5) by simp
  have nz: "\<not> py_eq b (PInt 0)" using assms(4,5) by (rule exact_nonzero)
  obtain bh where bh: "to_double b = Inr (FNum (w < 0) bh)" "near 1 \<bar>w\<bar> bh"
    using to_double_near [OF assms(2,4,5,6)] by blast
  have bh2: "\<bar>w\<bar> / 2 \<le> bh" "bh \<le> 2 * \<bar>w\<bar>"
    using near_step [OF bh(2)] by simp_all
  then have bh0: "0 < bh" using B by linarith
  show ?thesis
  proof (cases "\<exists>i j. a = PInt i \<and> b = PInt j")
    case True
    then obtain i j where a: "a = PInt i" and b: "b = PInt j" by blast
    have u: "u = of_int i" and w: "w = of_int j" and j: "j \<noteq> 0"
      using assms(3,4,5) by (auto simp: a b)
    let ?r = "\<bar>of_int i\<bar> / \<bar>of_int j\<bar> :: rat"
    have r: "?r = \<bar>u / w\<bar>" by (simp add: u w)
    have "pow2 (- 1022) \<le> pow2 (- 1020)" "pow2 1021 \<le> pow2 1023"
      by (simp_all add: pow2_le_iff)
    then have rr: "pow2 (- 1022) \<le> ?r" "?r \<le> pow2 1023"
      using assms(9,10) unfolding r by linarith+
    obtain q where q: "round_mag ?r = Some q"
      using round_mag_finite [of ?r] rr(2) by auto
    have "near 1 ?r q" using rr(1) q by (rule near_round)
    then have "near (1 + 1) (?r * \<bar>w\<bar>) (q * bh)"
      using bh(2) by (rule near_mult) simp_all
    moreover have "?r * \<bar>w\<bar> = \<bar>u\<bar>" using j by (simp add: u w)
    ultimately have n2: "near 2 \<bar>u\<bar> (q * bh)" by (simp add: numeral_2_eq_2)
    let ?s = "((i < 0) \<noteq> (j < 0)) \<noteq> (w < 0)"
    obtain p where p: "round_float ?s (q * bh) = FNum ?s p" "near 3 \<bar>u\<bar> p"
      using round_float_near [OF n2 assms(7,8)] by blast
    have s: "?s = (u < 0)" by (auto simp: u w)
    have "divide_py a b = Inr (PFloat (FNum ((i < 0) \<noteq> (j < 0)) q))"
      using j q by (simp add: a b divide_py_def int_truediv_def)
    moreover have "multiply (PFloat (FNum ((i < 0) \<noteq> (j < 0)) q)) b
                   = Inr (PFloat (round_float ?s (q * bh)))"
      using bh(1) by (simp add: b multiply_def float_op_def)
    ultimately have "roundtrip a b = Inr (PFloat (FNum (u < 0) p))"
      using p(1) s by (simp add: roundtrip_def)
    then show ?thesis using p(2) by blast
  next
    case False
    then have op: "py_truediv a b = float_op fdiv a b"
      by (cases a; cases b) auto
    have ua: "\<bar>u\<bar> \<le> pow2 1023"
      using assms(8) pow2_mono [of 1022 1023] by simp
    obtain ah where ah: "to_double a = Inr (FNum (u < 0) ah)" "near 1 \<bar>u\<bar> ah"
      using to_double_near [OF assms(1,3) u0 ua] by blast
    have ah2: "\<bar>u\<bar> / 2 \<le> ah" "ah \<le> 2 * \<bar>u\<bar>"
      using near_step [OF ah(2)] by simp_all
    have ab: "\<bar>u\<bar> / \<bar>w\<bar> = \<bar>u / w\<bar>" by simp
    have rr: "pow2 (- 1022) \<le> ah / bh" "ah / bh \<le> pow2 1023"
      using quotient_range [OF ah2 bh2 A B] assms(9,10) unfolding ab by blast+
    then have "0 \<le> ah / bh" using pow2_pos [of "- 1022"] by linarith
    then obtain q where q: "round_mag (ah / bh) = Some q"
      using round_mag_finite rr(2) by blast
    have "near 1 (ah / bh) q" using rr(1) q by (rule near_round)
    then have "near 1 (ah / bh * bh) (q * bh)"
      using bh0 by (intro near_scale) simp_all
    then have "near 1 ah (q * bh)" using bh0 by simp
    then have "near (1 + 1) \<bar>u\<bar> (q * bh)"
      using ah(2) by (intro near_trans [of 1 "\<bar>u\<bar>" ah 1]) simp_all
    then have n2: "near 2 \<bar>u\<bar> (q * bh)" by (simp add: numeral_2_eq_2)
    let ?s = "((u < 0) \<noteq> (w < 0)) \<noteq> (w < 0)"
    obtain p where p: "round_float ?s (q * bh) = FNum ?s p" "near 3 \<bar>u\<bar> p"
      using round_float_near [OF n2 assms(7,8)] by blast
    have s: "?s = (u < 0)" by auto
    have "divide_py a b = Inr (PFloat (FNum ((u < 0) \<noteq> (w < 0)) q))"
      using nz ah(1) bh(1) bh0 q
      by (simp add: divide_py_def op float_op_def fdiv_def round_float_def)
    moreover have "multiply (PFloat (FNum ((u < 0) \<noteq> (w < 0)) q)) b
                   = Inr (PFloat (round_float ?s (q * bh)))"
      using bh(1) by (cases b) (simp_all add: multiply_def float_op_def)
    ultimately have "roundtrip a b = Inr (PFloat (FNum (u < 0) p))"
      using p(1) s by (simp add: roundtrip_def)
    then show ?thesis using p(2) by blast
  qed
qed

lemma round_mag_underflow:
  assumes "0 \<le> q" and "q < pow2 (- 1075)"
  shows "round_mag q = Some 0"
proof (cases "q = 0")
  case True
  then show ?thesis by (simp add: round_mag_def)
next
  case False
  then have q: "0 < q" using assms(1) by simp
  have "floor_log2 q < - 1075" using q assms(2) by (rule floor_log2_less)
  then have e: "ulp_exp q = - 1074" by (simp add: ulp_exp_def)
  define x where "x = q / pow2 (- 1074)"
  have "x < pow2 (- 1075) / pow2 (- 1074)"
    unfolding x_def using assms(2) by (simp add: divide_strict_right_mono)
  also have "\<dots> = 1 / 2" using pow2_diff [of "- 1075" "- 1074"] by (simp add: pow2_def)
  finally have lt: "x < 1 / 2" .
  have ge: "0 \<le> x" unfolding x_def using q by simp
  have "\<lfloor>x\<rfloor> = 0" by (rule floor_unique) (use lt ge in simp_all)
  then have "round_half_even x = 0"
    using lt by (simp add: round_half_even_def)
  then have "round_nearest q = 0" by (simp add: round_nearest_def e x_def)
  then show ?thesis using q by (simp add: round_mag_pos)
qed

lemma round_float_zero [simp]: "round_float s 0 = FNum s 0"
  by (simp add: round_float_def round_mag_def)

lemma to_double_zero:
  assumes "exact a = Some 0"
  shows "\<exists>s. to_double a = Inr (FNum s 0)"
proof (cases a)
  case (PInt i)
  then show ?thesis using assms by (auto simp: float_of_int_def round_mag_def)
next
  case (PFloat x)
  then show ?thesis using assms by (auto simp: exact_PFloat_Some)
qed

lemma roundtrip_zero:
  assumes "is_num b" and "exact a = Some 0" and "exact b = Some w"
    and "w \<noteq> 0" and "\<bar>w\<bar> \<le> pow2 1023"
  shows "\<exists>s. roundtrip a b = Inr (PFloat (FNum s 0))"
proof -
  have nz: "\<not> py_eq b (PInt 0)" using assms(3,4) by (rule exact_nonzero)
  obtain bh where bh: "to_double b = Inr (FNum (w < 0) bh)" "near 1 \<bar>w\<bar> bh"
    using to_double_near [OF assms(1,3,4,5)] by blast
  have "\<bar>w\<bar> / 2 \<le> bh" using near_step [OF bh(2)] by simp
  then have bh0: "bh \<noteq> 0" using assms(4) by auto
  have mul: "multiply (PFloat (FNum s 0)) b = Inr (PFloat (FNum (s \<noteq> (w < 0)) 0))" for s
    using bh(1) by (cases b) (simp_all add: multiply_def float_op_def)
  obtain sa where sa: "to_double a = Inr (FNum sa 0)"
    using to_double_zero [OF assms(2)] by blast
  have "\<exists>s. divide_py a b = Inr (PFloat (FNum s 0))"
  proof (cases "\<exists>i j. a = PInt i \<and> b = PInt j")
    case True
    then obtain i j where a: "a = PInt i" and b: "b = PInt j" by blast
    have "i = 0" "j \<noteq> 0" using assms(2,3,4) by (auto simp: a b)
    then show ?thesis by (simp add: a b divide_py_def int_truediv_def round_mag_def)
  next
    case False
    then have "py_truediv a b = float_op fdiv a b"
      by (cases a; cases b) auto
    then show ?thesis
      using nz sa bh(1) bh0 by (simp add: divide_py_def float_op_def fdiv_def)
  qed
  then show ?thesis using mul by (auto simp: roundtrip_def)
qed

lemma too_large_2_1100: "too_large (PInt (2 ^ 1100))"
proof -
  have "pow2 1100 = 2 ^ 1100" by (simp add: pow2_def)
  moreover have "pow2 1024 \<le> pow2 1100" by (simp add: pow2_le_iff)
  moreover have "pow2 1024 - pow2 970 \<le> pow2 1024" by simp
  ultimately have "pow2 1024 - pow2 970 \<le> (2 ^ 1100 :: rat)" by linarith
  moreover have "\<bar>of_int (2 ^ 1100) :: rat\<bar> = 2 ^ 1100" by simp
  ultimately have "pow2 1024 - pow2 970 \<le> \<bar>of_int (2 ^ 1100) :: rat\<bar>" by (simp only:)
  then show ?thesis by (simp only: too_large.simps)
qed

subsection \<open>The operations return numbers\<close>

lemma round_float_is_double: "0 \<le> q \<Longrightarrow> is_double (round_float s q)"
  using round_mag_nonneg [of q] round_mag_idem [of q]
  by (cases "round_mag q") (auto simp: round_float_def)

lemma round_mag_0 [simp]: "round_mag 0 = Some 0"
  by (simp add: round_mag_def)

lemma is_double_zero [simp]: "is_double (FNum s 0)"
  by simp

lemma fneg_is_double [simp]: "is_double (fneg x) = is_double x"
  by (cases x) auto

lemma fadd_is_double: "is_double (fadd x y)"
  by (cases x; cases y) (auto simp: Let_def round_float_is_double)

lemma fsub_is_double: "is_double (fsub x y)"
  by (simp add: fsub_def fadd_is_double)

lemma fmul_is_double: "is_double x \<Longrightarrow> is_double y \<Longrightarrow> is_double (fmul x y)"
  by (cases x; cases y) (auto simp: round_float_is_double)

lemma fquot_is_double: "is_double x \<Longrightarrow> is_double y \<Longrightarrow> is_double (fquot x y)"
  by (cases x; cases y) (auto simp: round_float_is_double)

lemma to_double_is_double: "is_num a \<Longrightarrow> to_double a = Inr x \<Longrightarrow> is_double x"
proof (cases a)
  case (PInt i)
  assume "to_double a = Inr x"
  then obtain v where v: "round_mag \<bar>of_int i\<bar> = Some v" and x: "x = FNum (i < 0) v"
    by (auto simp: PInt float_of_int_def split: option.splits)
  have "0 \<le> v" "round_mag v = Some v"
    using round_mag_nonneg [OF _ v] round_mag_idem [OF _ v] by simp_all
  then show ?thesis by (simp add: x)
next
  case (PFloat y)
  assume "is_num a" "to_double a = Inr x"
  then show ?thesis by (simp add: PFloat)
qed

lemma float_op_is_num:
  assumes "is_num a" and "is_num b" and "float_op (\<lambda>x y. Inr (f x y)) a b = Inr r"
    and "\<And>x y. is_double x \<Longrightarrow> is_double y \<Longrightarrow> is_double (f x y)"
  shows "is_num r"
proof -
  obtain x y where xy: "to_double a = Inr x" "to_double b = Inr y" and r: "r = PFloat (f x y)"
    using assms(3) unfolding float_op_total_Inr by blast
  have "is_double x" "is_double y"
    using to_double_is_double [OF assms(1) xy(1)] to_double_is_double [OF assms(2) xy(2)] .
  then show ?thesis by (simp add: r assms(4))
qed

lemma int_truediv_is_double: "int_truediv i j = Inr z \<Longrightarrow> is_double z"
proof -
  assume a: "int_truediv i j = Inr z"
  then obtain v where v: "round_mag (\<bar>of_int i\<bar> / \<bar>of_int j\<bar>) = Some v"
    and z: "z = FNum ((i < 0) \<noteq> (j < 0)) v"
    by (auto simp: int_truediv_def split: if_splits option.splits)
  have "0 \<le> v" "round_mag v = Some v"
    using round_mag_nonneg [OF _ v] round_mag_idem [OF _ v] by simp_all
  then show ?thesis by (simp add: z)
qed

lemma py_add_is_num: "is_num a \<Longrightarrow> is_num b \<Longrightarrow> py_add a b = Inr r \<Longrightarrow> is_num r"
proof (cases "\<exists>i j. a = PInt i \<and> b = PInt j")
  case True
  assume "py_add a b = Inr r"
  then show ?thesis using True by auto
next
  case False
  then have op: "py_add a b = float_op (\<lambda>x y. Inr (fadd x y)) a b"
    by (cases a; cases b) simp_all
  assume "is_num a" "is_num b" "py_add a b = Inr r"
  then show ?thesis
    unfolding op by (rule float_op_is_num) (rule fadd_is_double)
qed

lemma py_sub_is_num: "is_num a \<Longrightarrow> is_num b \<Longrightarrow> py_sub a b = Inr r \<Longrightarrow> is_num r"
proof (cases "\<exists>i j. a = PInt i \<and> b = PInt j")
  case True
  assume "py_sub a b = Inr r"
  then show ?thesis using True by auto
next
  case False
  then have op: "py_sub a b = float_op (\<lambda>x y. Inr (fsub x y)) a b"
    by (cases a; cases b) simp_all
  assume "is_num a" "is_num b" "py_sub a b = Inr r"
  then show ?thesis
    unfolding op by (rule float_op_is_num) (rule fsub_is_double)
qed

lemma py_mul_is_num: "is_num a \<Longrightarrow> is_num b \<Longrightarrow> py_mul a b = Inr r \<Longrightarrow> is_num r"
proof (cases "\<exists>i j. a = PInt i \<and> b = PInt j")
  case True
  assume "py_mul a b = Inr r"
  then show ?thesis using True by auto
next
  case False
  then have op: "py_mul a b = float_op (\<lambda>x y. Inr (fmul x y)) a b"
    by (cases a; cases b) simp_all
  assume "is_num a" "is_num b" "py_mul a b = Inr r"
  then show ?thesis
    unfolding op by (rule float_op_is_num) (rule fmul_is_double)
qed

lemma py_truediv_is_num:
  assumes "is_num a" and "is_num b" and "py_truediv a b = Inr r"
  shows "is_num r"
proof (cases "\<exists>i j. a = PInt i \<and> b = PInt j")
  case True
  then obtain i j where ab: "a = PInt i" "b = PInt j" by blast
  obtain z where "int_truediv i j = Inr z" "r = PFloat z"
    using assms(3) by (auto simp: ab split: sum.splits)
  then show ?thesis using int_truediv_is_double [of i j z] by simp
next
  case False
  then have op: "py_truediv a b = float_op fdiv a b"
    by (cases a; cases b) simp_all
  obtain x y where xy: "to_double a = Inr x" "to_double b = Inr y"
    and r: "fdiv x y = Inr (fquot x y)" "r = PFloat (fquot x y)"
    using assms(3) unfolding op
    by (auto simp: float_op_def fdiv_def split: sum.splits if_splits)
  have "is_double x" "is_double y"
    using to_double_is_double [OF assms(1) xy(1)] to_double_is_double [OF assms(2) xy(2)] .
  then show ?thesis by (simp add: r(2) fquot_is_double)
qed

text \<open>The four functions return numbers: a float returned is a binary64 value.\<close>

lemma results_are_numbers:
  assumes "is_num a" and "is_num b"
  shows "add a b = Inr r \<Longrightarrow> is_num r"
    and "subtract a b = Inr r \<Longrightarrow> is_num r"
    and "multiply a b = Inr r \<Longrightarrow> is_num r"
    and "divide_py a b = Inr r \<Longrightarrow> is_num r"
proof -
  show "add a b = Inr r \<Longrightarrow> is_num r"
    unfolding add_def by (rule py_add_is_num [OF assms])
  show "subtract a b = Inr r \<Longrightarrow> is_num r"
    unfolding subtract_def Let_def by (rule py_sub_is_num [OF assms])
  show "multiply a b = Inr r \<Longrightarrow> is_num r"
    unfolding multiply_def by (rule py_mul_is_num [OF assms])
  show "divide_py a b = Inr r \<Longrightarrow> is_num r"
    using py_truediv_is_num [OF assms, of r]
    by (simp add: divide_py_def split: if_splits)
qed


subsection \<open>Operands taken at their exact values\<close>

lemma to_double_exact:
  assumes "float_exact a" and "exact a = Some u"
  shows "\<exists>s p. to_double a = Inr (FNum s p) \<and> signed s p = u \<and> (is_num a \<longrightarrow> 0 \<le> p)"
proof (cases a)
  case (PInt i)
  have i: "\<bar>i\<bar> \<le> 2 ^ 53" and u: "u = of_int i" using assms by (simp_all add: PInt)
  have "round_mag (of_int \<bar>i\<bar>) = Some (of_int \<bar>i\<bar>)"
    using i by (intro round_mag_of_int) simp_all
  then have "float_of_int i = Inr (FNum (i < 0) \<bar>of_int i\<bar>)"
    by (simp add: float_of_int_def)
  moreover have "signed (i < 0) \<bar>of_int i :: rat\<bar> = of_int i"
    by (simp add: signed_def)
  ultimately show ?thesis by (simp add: PInt u)
next
  case (PFloat x)
  then show ?thesis using assms(2) by (auto simp: exact_PFloat_Some)
qed

text \<open>A float operation on operands taken at their exact values.\<close>

lemma float_op_exact:
  assumes "float_exact a" and "float_exact b" and "exact a = Some u" and "exact b = Some w"
  shows "\<exists>s p t q. float_op (\<lambda>x y. Inr (f x y)) a b = Inr (PFloat (f (FNum s p) (FNum t q)))
           \<and> to_double a = Inr (FNum s p) \<and> to_double b = Inr (FNum t q)
           \<and> signed s p = u \<and> signed t q = w
           \<and> (is_num a \<longrightarrow> 0 \<le> p) \<and> (is_num b \<longrightarrow> 0 \<le> q)"
proof -
  obtain s p where a: "to_double a = Inr (FNum s p)" "signed s p = u" "is_num a \<longrightarrow> 0 \<le> p"
    using to_double_exact [OF assms(1,3)] by blast
  obtain t q where b: "to_double b = Inr (FNum t q)" "signed t q = w" "is_num b \<longrightarrow> 0 \<le> q"
    using to_double_exact [OF assms(2,4)] by blast
  have "float_op (\<lambda>x y. Inr (f x y)) a b = Inr (PFloat (f (FNum s p) (FNum t q)))"
    by (simp add: float_op_def a(1) b(1))
  then show ?thesis using a b by blast
qed

lemma not_both_ints:
  assumes "is_float a \<or> is_float b"
  shows "py_add a b = float_op (\<lambda>x y. Inr (fadd x y)) a b"
    and "py_sub a b = float_op (\<lambda>x y. Inr (fsub x y)) a b"
    and "py_mul a b = float_op (\<lambda>x y. Inr (fmul x y)) a b"
    and "py_truediv a b = float_op fdiv a b"
  using assms by (cases a; cases b; simp)+

lemma round_float_exact: "round_mag q = Some q \<Longrightarrow> round_float s q = FNum s q"
  by (simp add: round_float_def)

lemma fadd_exact:
  assumes "round_mag \<bar>signed s p + signed t q\<bar> = Some \<bar>signed s p + signed t q\<bar>"
  shows "\<exists>u v. fadd (FNum s p) (FNum t q) = FNum u v \<and> signed u v = signed s p + signed t q"
proof (cases "signed s p + signed t q = 0")
  case True
  then show ?thesis by simp
next
  case False
  then show ?thesis
    using round_float_exact [OF assms] by (simp add: Let_def signed_of_sign)
qed

lemma fmul_exact:
  assumes "0 \<le> p" and "0 \<le> q"
    and "round_mag \<bar>signed s p * signed t q\<bar> = Some \<bar>signed s p * signed t q\<bar>"
  shows "\<exists>u v. fmul (FNum s p) (FNum t q) = FNum u v \<and> signed u v = signed s p * signed t q"
proof -
  have a: "\<bar>signed s p * signed t q\<bar> = p * q"
    using assms(1,2) by (simp add: signed_mult abs_signed)
  show ?thesis
    using round_float_exact [of "p * q" "s \<noteq> t"] assms(3) unfolding a
    by (simp add: signed_mult)
qed

lemma fquot_exact:
  assumes "0 \<le> p" and "0 \<le> q"
    and "round_mag \<bar>signed s p / signed t q\<bar> = Some \<bar>signed s p / signed t q\<bar>"
  shows "\<exists>u v. fquot (FNum s p) (FNum t q) = FNum u v \<and> signed u v = signed s p / signed t q"
proof -
  have a: "\<bar>signed s p / signed t q\<bar> = p / q"
    using assms(1,2) by (simp add: signed_divide abs_signed)
  show ?thesis
    using round_float_exact [of "p / q" "s \<noteq> t"] assms(3) unfolding a
    by (simp add: signed_divide)
qed

lemma py_add_exact:
  assumes "is_float a \<or> is_float b" and "float_exact a" and "float_exact b"
    and "exact a = Some u" and "exact b = Some w"
    and "round_mag \<bar>u + w\<bar> = Some \<bar>u + w\<bar>"
  shows "\<exists>z. py_add a b = Inr (PFloat z) \<and> exact (PFloat z) = Some (u + w)"
proof -
  obtain s p t q where op: "float_op (\<lambda>x y. Inr (fadd x y)) a b
        = Inr (PFloat (fadd (FNum s p) (FNum t q)))"
    and v: "signed s p = u" "signed t q = w"
    using float_op_exact [OF assms(2-5), of fadd] by blast
  obtain s' v' where "fadd (FNum s p) (FNum t q) = FNum s' v'" "signed s' v' = u + w"
    using fadd_exact [of s p t q] assms(6) unfolding v by blast
  then show ?thesis
    unfolding not_both_ints(1) [OF assms(1)] op by simp
qed

lemma py_add_accurate:
  assumes "is_float a \<or> is_float b" and "float_exact a" and "float_exact b"
    and "exact a = Some u" and "exact b = Some w"
    and "pow2 (- 1022) \<le> \<bar>u + w\<bar>" and "\<bar>u + w\<bar> \<le> pow2 1023"
  shows "\<exists>z v. py_add a b = Inr (PFloat z) \<and> exact (PFloat z) = Some v
             \<and> \<bar>v - (u + w)\<bar> \<le> pow2 (- 53) * \<bar>u + w\<bar>"
proof -
  obtain s p t q where op: "float_op (\<lambda>x y. Inr (fadd x y)) a b
        = Inr (PFloat (fadd (FNum s p) (FNum t q)))"
    and v: "signed s p = u" "signed t q = w"
    using float_op_exact [OF assms(2-5), of fadd] by blast
  obtain s' v' where "fadd (FNum s p) (FNum t q) = FNum s' v'"
    "\<bar>signed s' v' - (u + w)\<bar> \<le> pow2 (- 53) * \<bar>u + w\<bar>"
    using fadd_accurate [of s p t q] assms(6,7) unfolding v by blast
  then show ?thesis
    unfolding not_both_ints(1) [OF assms(1)] op
    by (intro exI [of _ "FNum s' v'"] exI [of _ "signed s' v'"]) simp
qed

lemma py_mul_exact:
  assumes "is_float a \<or> is_float b" and "float_exact a" and "float_exact b"
    and "is_num a" and "is_num b"
    and "exact a = Some u" and "exact b = Some w"
    and "round_mag \<bar>u * w\<bar> = Some \<bar>u * w\<bar>"
  shows "\<exists>z. py_mul a b = Inr (PFloat z) \<and> exact (PFloat z) = Some (u * w)"
proof -
  obtain s p t q where op: "float_op (\<lambda>x y. Inr (fmul x y)) a b
        = Inr (PFloat (fmul (FNum s p) (FNum t q)))"
    and v: "signed s p = u" "signed t q = w" and pq: "0 \<le> p" "0 \<le> q"
    using float_op_exact [OF assms(2,3,6,7), of fmul] assms(4,5) by blast
  obtain s' v' where "fmul (FNum s p) (FNum t q) = FNum s' v'" "signed s' v' = u * w"
    using fmul_exact [OF pq, of s t] assms(8) unfolding v by blast
  then show ?thesis
    unfolding not_both_ints(3) [OF assms(1)] op by simp
qed

lemma py_mul_accurate:
  assumes "is_float a \<or> is_float b" and "float_exact a" and "float_exact b"
    and "is_num a" and "is_num b"
    and "exact a = Some u" and "exact b = Some w"
    and "pow2 (- 1022) \<le> \<bar>u * w\<bar>" and "\<bar>u * w\<bar> \<le> pow2 1023"
  shows "\<exists>z v. py_mul a b = Inr (PFloat z) \<and> exact (PFloat z) = Some v
             \<and> \<bar>v - u * w\<bar> \<le> pow2 (- 53) * \<bar>u * w\<bar>"
proof -
  obtain s p t q where op: "float_op (\<lambda>x y. Inr (fmul x y)) a b
        = Inr (PFloat (fmul (FNum s p) (FNum t q)))"
    and v: "signed s p = u" "signed t q = w" and pq: "0 \<le> p" "0 \<le> q"
    using float_op_exact [OF assms(2,3,6,7), of fmul] assms(4,5) by blast
  obtain s' v' where "fmul (FNum s p) (FNum t q) = FNum s' v'"
    "\<bar>signed s' v' - u * w\<bar> \<le> pow2 (- 53) * \<bar>u * w\<bar>"
    using fmul_accurate [OF pq, of s t] assms(8,9) unfolding v by blast
  then show ?thesis
    unfolding not_both_ints(3) [OF assms(1)] op
    by (intro exI [of _ "FNum s' v'"] exI [of _ "signed s' v'"]) simp
qed

text \<open>A product of any two finite numbers that convert: three roundings at most.\<close>

lemma py_mul_close:
  assumes "is_float a \<or> is_float b" and "is_num a" and "is_num b"
    and "exact a = Some u" and "exact b = Some w"
    and "\<bar>u\<bar> \<le> pow2 1023" and "\<bar>w\<bar> \<le> pow2 1023"
    and "pow2 (- 1021) \<le> \<bar>u * w\<bar>" and "\<bar>u * w\<bar> \<le> pow2 1022"
  shows "\<exists>z v. py_mul a b = Inr (PFloat z) \<and> exact (PFloat z) = Some v
             \<and> \<bar>v - u * w\<bar> \<le> pow2 (- 51) * \<bar>u * w\<bar>"
proof -
  have "0 < \<bar>u * w\<bar>" using assms(8) pow2_pos [of "- 1021"] by linarith
  then have u0: "u \<noteq> 0" and w0: "w \<noteq> 0" by auto
  obtain ah where ah: "to_double a = Inr (FNum (u < 0) ah)" "near 1 \<bar>u\<bar> ah"
    using to_double_near [OF assms(2,4) u0 assms(6)] by blast
  obtain bh where bh: "to_double b = Inr (FNum (w < 0) bh)" "near 1 \<bar>w\<bar> bh"
    using to_double_near [OF assms(3,5) w0 assms(7)] by blast
  have "near (1 + 1) (\<bar>u\<bar> * \<bar>w\<bar>) (ah * bh)"
    using ah(2) bh(2) by (rule near_mult) simp_all
  then have n2: "near 2 \<bar>u * w\<bar> (ah * bh)" by (simp add: numeral_2_eq_2 abs_mult)
  let ?s = "(u < 0) \<noteq> (w < 0)"
  obtain p where p: "round_float ?s (ah * bh) = FNum ?s p" "near 3 \<bar>u * w\<bar> p"
    using round_float_near [OF n2 assms(8,9)] by blast
  have s: "?s = (u * w < 0)" using u0 w0 by (auto simp: mult_less_0_iff)
  have "py_mul a b = Inr (PFloat (FNum (u * w < 0) p))"
    unfolding not_both_ints(3) [OF assms(1)] using ah(1) bh(1) p(1) s
    by (simp add: float_op_def)
  moreover have "\<bar>signed (u * w < 0) p - u * w\<bar> \<le> pow2 (- 51) * \<bar>u * w\<bar>"
  proof -
    have "\<bar>signed (u * w < 0) p - u * w\<bar>
          = \<bar>signed (u * w < 0) p - signed (u * w < 0) \<bar>u * w\<bar>\<bar>"
      by (simp only: signed_of_sign)
    also have "\<dots> = \<bar>p - \<bar>u * w\<bar>\<bar>" by (rule signed_diff_abs)
    also have "\<dots> \<le> pow2 (- 51) * \<bar>u * w\<bar>" using p(2) by (rule near_3_close) simp
    finally show ?thesis .
  qed
  ultimately show ?thesis
    by (intro exI [of _ "FNum (u * w < 0) p"] exI [of _ "signed (u * w < 0) p"]) simp
qed

lemma near_0_eq: "near 0 x y \<Longrightarrow> y = x"
  by (simp add: near_def)

lemma near_inverse:
  assumes "near 1 x y" and "0 < x" and "0 \<le> c"
  shows "near 2 (c / x) (c / y)"
proof -
  define e where "e = pow2 (- 53)"
  have e: "0 < e" "e \<le> 1 / 16" unfolding e_def by (rule eps_bounds)+
  have lo: "(1 - e) * x \<le> y" and hi: "y \<le> (1 + e) * x"
    using assms(1) by (simp_all add: near_def e_def)
  have "0 < (1 - e) * x" using e assms(2) by simp
  then have y: "0 < y" using lo by linarith
  have ee: "e * e \<le> e / 16" using mult_left_mono [OF e(2), of e] e(1) by simp
  have eee: "0 \<le> e * e * e" "e * e * e \<le> e / 16"
  proof -
    show "0 \<le> e * e * e" using e(1) by simp
    have "e * e * e \<le> (e / 16) * e" using ee e(1) by (intro mult_right_mono) auto
    also have "\<dots> \<le> e / 16" using e by (simp add: mult_left_le)
    finally show "e * e * e \<le> e / 16" .
  qed
  have e0: "0 \<le> e * e" using e(1) by simp
  have A: "1 \<le> (1 + e) ^ 2 * (1 - e)"
  proof -
    have "(1 + e) ^ 2 * (1 - e) = 1 + e - e * e - e * e * e"
      by (simp add: power2_eq_square algebra_simps)
    then show ?thesis using ee eee by linarith
  qed
  have B: "(1 - e) ^ 2 * (1 + e) \<le> 1"
  proof -
    have "(1 - e) ^ 2 * (1 + e) = 1 - e - e * e + e * e * e"
      by (simp add: power2_eq_square algebra_simps)
    then show ?thesis using e0 eee e(1) by linarith
  qed
  have k: "0 \<le> c / (x * y)" using assms(2,3) y by simp
  have p1: "0 \<le> (1 + e) ^ 2" and p2: "0 \<le> (1 - e) ^ 2" by simp_all
  have "x = 1 * x" by simp
  also have "\<dots> \<le> (1 + e) ^ 2 * (1 - e) * x" using A assms(2) by (intro mult_right_mono) auto
  also have "\<dots> = (1 + e) ^ 2 * ((1 - e) * x)" by simp
  also have "\<dots> \<le> (1 + e) ^ 2 * y" using lo p1 by (rule mult_left_mono)
  finally have 1: "x \<le> (1 + e) ^ 2 * y" .
  have "(1 - e) ^ 2 * y \<le> (1 - e) ^ 2 * ((1 + e) * x)" using hi p2 by (rule mult_left_mono)
  also have "\<dots> = (1 - e) ^ 2 * (1 + e) * x" by simp
  also have "\<dots> \<le> 1 * x" using B assms(2) by (intro mult_right_mono) auto
  finally have 2: "(1 - e) ^ 2 * y \<le> x" by simp
  have cy: "c / y = c / (x * y) * x" and cx: "c / x = c / (x * y) * y"
    using assms(2) y by simp_all
  have "c / y \<le> c / (x * y) * ((1 + e) ^ 2 * y)"
    unfolding cy using 1 k by (rule mult_left_mono)
  also have "\<dots> = (1 + e) ^ 2 * (c / x)" unfolding cx by simp
  finally have up: "c / y \<le> (1 + e) ^ 2 * (c / x)" .
  have "(1 - e) ^ 2 * (c / x) = c / (x * y) * ((1 - e) ^ 2 * y)" unfolding cx by simp
  also have "\<dots> \<le> c / (x * y) * x" using 2 k by (rule mult_left_mono)
  also have "\<dots> = c / y" unfolding cy ..
  finally have dn: "(1 - e) ^ 2 * (c / x) \<le> c / y" .
  show ?thesis using up dn by (simp add: near_def e_def)
qed

text \<open>The conversion of an operand: exact for a float, one rounding for an int.\<close>

lemma to_double_near_k:
  assumes "is_num a" and "exact a = Some u" and "u \<noteq> 0" and "\<bar>u\<bar> \<le> pow2 1023"
  shows "\<exists>m. to_double a = Inr (FNum (u < 0) m) \<and> 0 < m
             \<and> near (if is_float a then 0 else 1) \<bar>u\<bar> m"
proof (cases a)
  case (PInt i)
  obtain m where m: "to_double a = Inr (FNum (u < 0) m)" "near 1 \<bar>u\<bar> m"
    using to_double_near [OF assms] by blast
  have "\<bar>u\<bar> / 2 \<le> m" using near_step [OF m(2)] by simp
  then have "0 < m" using assms(3) by auto
  then show ?thesis using m by (auto simp: PInt)
next
  case (PFloat x)
  then obtain s p where x: "x = FNum s p" and u: "u = signed s p"
    using assms(2) by (auto simp: exact_PFloat_Some)
  have p: "0 < p" using assms(1,3) by (auto simp: PFloat x u)
  then have "(u < 0) = s" "\<bar>u\<bar> = p" by (auto simp: u signed_def)
  then show ?thesis using p by (simp add: PFloat x near_refl)
qed

lemma py_truediv_close:
  assumes "is_float a \<or> is_float b" and "is_num a" and "is_num b"
    and "exact a = Some u" and "exact b = Some w" and "w \<noteq> 0"
    and "\<bar>u\<bar> \<le> pow2 1023" and "\<bar>w\<bar> \<le> pow2 1023"
    and "pow2 (- 1021) \<le> \<bar>u / w\<bar>" and "\<bar>u / w\<bar> \<le> pow2 1022"
  shows "\<exists>z v. py_truediv a b = Inr (PFloat z) \<and> exact (PFloat z) = Some v
             \<and> \<bar>v - u / w\<bar> \<le> pow2 (- 51) * \<bar>u / w\<bar>"
proof -
  have "0 < \<bar>u / w\<bar>" using assms(9) pow2_pos [of "- 1021"] by linarith
  then have u0: "u \<noteq> 0" by auto
  define ka :: nat where "ka = (if is_float a then 0 else 1)"
  define kb :: nat where "kb = (if is_float b then 0 else 1)"
  have k: "ka + kb \<le> 1" using assms(1) by (auto simp: ka_def kb_def)
  obtain ah where ah: "to_double a = Inr (FNum (u < 0) ah)" "0 < ah" "near ka \<bar>u\<bar> ah"
    using to_double_near_k [OF assms(2,4) u0 assms(7)] unfolding ka_def by blast
  obtain bh where bh: "to_double b = Inr (FNum (w < 0) bh)" "0 < bh" "near kb \<bar>w\<bar> bh"
    using to_double_near_k [OF assms(3,5,6,8)] unfolding kb_def by blast
  have w: "0 < \<bar>w\<bar>" using assms(6) by simp
  have 1: "near (2 * kb) (\<bar>u\<bar> / \<bar>w\<bar>) (\<bar>u\<bar> / bh)"
  proof (cases "kb = 0")
    case True
    then show ?thesis using near_0_eq [of "\<bar>w\<bar>" bh] bh(3) by (simp add: near_refl)
  next
    case False
    then have "kb = 1" using k by simp
    then show ?thesis using near_inverse [of "\<bar>w\<bar>" bh "\<bar>u\<bar>"] bh(3) w by simp
  qed
  have "near ka (\<bar>u\<bar> * (1 / bh)) (ah * (1 / bh))"
    using ah(3) bh(2) by (intro near_scale) simp_all
  then have 2: "near ka (\<bar>u\<bar> / bh) (ah / bh)" by simp
  have "near (2 * kb + ka) (\<bar>u\<bar> / \<bar>w\<bar>) (ah / bh)"
    using 1 2 by (rule near_trans) simp
  then have "near 2 (\<bar>u\<bar> / \<bar>w\<bar>) (ah / bh)"
    using k by (intro near_mono [of "2 * kb + ka" _ _ 2]) (auto simp: ka_def kb_def split: if_splits)
  then have n2: "near 2 \<bar>u / w\<bar> (ah / bh)" by simp
  let ?s = "(u < 0) \<noteq> (w < 0)"
  obtain p where p: "round_float ?s (ah / bh) = FNum ?s p" "near 3 \<bar>u / w\<bar> p"
    using round_float_near [OF n2 assms(9,10)] by blast
  have s: "?s = (u / w < 0)" using u0 assms(6) by (auto simp: divide_less_0_iff)
  have "py_truediv a b = Inr (PFloat (FNum (u / w < 0) p))"
    unfolding not_both_ints(4) [OF assms(1)] using ah(1) bh(1,2) p(1) s
    by (simp add: float_op_def fdiv_def)
  moreover have "\<bar>signed (u / w < 0) p - u / w\<bar> \<le> pow2 (- 51) * \<bar>u / w\<bar>"
  proof -
    have "\<bar>signed (u / w < 0) p - u / w\<bar>
          = \<bar>signed (u / w < 0) p - signed (u / w < 0) \<bar>u / w\<bar>\<bar>"
      by (simp only: signed_of_sign)
    also have "\<dots> = \<bar>p - \<bar>u / w\<bar>\<bar>" by (rule signed_diff_abs)
    also have "\<dots> \<le> pow2 (- 51) * \<bar>u / w\<bar>" using p(2) by (rule near_3_close) simp
    finally show ?thesis .
  qed
  ultimately show ?thesis
    by (intro exI [of _ "FNum (u / w < 0) p"] exI [of _ "signed (u / w < 0) p"]) simp
qed

lemma divide_py_accurate_operands:
  assumes "is_num a" and "is_num b"
    and "\<not> is_float a \<and> \<not> is_float b \<or> float_exact a \<and> float_exact b"
    and "exact a = Some u" and "exact b = Some w" and "w \<noteq> 0"
    and "pow2 (- 1022) \<le> \<bar>u / w\<bar>" and "\<bar>u / w\<bar> \<le> pow2 1023"
  shows "\<exists>z v. divide_py a b = Inr (PFloat z) \<and> exact (PFloat z) = Some v
             \<and> \<bar>v - u / w\<bar> \<le> pow2 (- 53) * \<bar>u / w\<bar>"
proof (cases "is_float a \<or> is_float b")
  case False
  then have "is_float a = is_float b" by simp
  then show ?thesis using divide_py_accurate [OF assms(1,2) _ assms(4-8)] by blast
next
  case True
  then have fe: "float_exact a" "float_exact b" using assms(3) by auto
  obtain s p where a: "to_double a = Inr (FNum s p)" "signed s p = u" "0 \<le> p"
    using to_double_exact [OF fe(1) assms(4)] assms(1) by blast
  obtain t q where b: "to_double b = Inr (FNum t q)" "signed t q = w" "0 \<le> q"
    using to_double_exact [OF fe(2) assms(5)] assms(2) by blast
  have q: "q \<noteq> 0" using assms(6) b(2) by auto
  have nz: "\<not> py_eq b (PInt 0)" using assms(5,6) by (rule exact_nonzero)
  obtain s' v where "fquot (FNum s p) (FNum t q) = FNum s' v"
    "\<bar>signed s' v - u / w\<bar> \<le> pow2 (- 53) * \<bar>u / w\<bar>"
    using fquot_accurate [OF a(3) b(3), of s t] assms(7,8) unfolding a(2) b(2) by blast
  then show ?thesis
    using nz q a(1) b(1)
    by (intro exI [of _ "FNum s' v"] exI [of _ "signed s' v"])
      (simp add: divide_py_def not_both_ints(4) [OF True] float_op_def fdiv_def)
qed

lemma divide_py_representable:
  assumes "is_num a" and "is_num b"
    and "\<not> is_float a \<and> \<not> is_float b \<or> float_exact a \<and> float_exact b"
    and "exact a = Some u" and "exact b = Some w" and "w \<noteq> 0"
    and "round_mag \<bar>u / w\<bar> = Some \<bar>u / w\<bar>"
  shows "\<exists>z. divide_py a b = Inr (PFloat z) \<and> exact (PFloat z) = Some (u / w)"
proof (cases "is_float a \<or> is_float b")
  case False
  then obtain i j where ab: "a = PInt i" "b = PInt j" by (cases a; cases b) auto
  have u: "u = of_int i" and w: "w = of_int j" and j: "j \<noteq> 0"
    using assms(4-6) by (auto simp: ab)
  have "round_mag (\<bar>of_int i\<bar> / \<bar>of_int j\<bar>) = Some (\<bar>of_int i\<bar> / \<bar>of_int j\<bar>)"
    using assms(7) by (simp add: u w)
  then have "int_truediv i j = Inr (FNum ((i < 0) \<noteq> (j < 0)) (\<bar>of_int i\<bar> / \<bar>of_int j\<bar>))"
    using j by (simp add: int_truediv_def)
  then show ?thesis
    using j int_quotient_signed [of i j]
    by (intro exI [of _ "FNum ((i < 0) \<noteq> (j < 0)) (\<bar>of_int i\<bar> / \<bar>of_int j\<bar>)"])
      (simp add: ab divide_py_def u w)
next
  case True
  then have fe: "float_exact a" "float_exact b" using assms(3) by auto
  obtain s p where a: "to_double a = Inr (FNum s p)" "signed s p = u" "0 \<le> p"
    using to_double_exact [OF fe(1) assms(4)] assms(1) by blast
  obtain t q where b: "to_double b = Inr (FNum t q)" "signed t q = w" "0 \<le> q"
    using to_double_exact [OF fe(2) assms(5)] assms(2) by blast
  have q: "q \<noteq> 0" using assms(6) b(2) by auto
  have nz: "\<not> py_eq b (PInt 0)" using assms(5,6) by (rule exact_nonzero)
  obtain s' v where "fquot (FNum s p) (FNum t q) = FNum s' v" "signed s' v = u / w"
    using fquot_exact [OF a(3) b(3), of s t] assms(7) unfolding a(2) b(2) by blast
  then show ?thesis
    using nz q a(1) b(1)
    by (intro exI [of _ "FNum s' v"])
      (simp add: divide_py_def not_both_ints(4) [OF True] float_op_def fdiv_def)
qed

lemma divide_py_close:
  assumes "is_num a" and "is_num b"
    and "exact a = Some u" and "exact b = Some w" and "w \<noteq> 0"
    and "\<bar>u\<bar> \<le> pow2 1023" and "\<bar>w\<bar> \<le> pow2 1023"
    and "pow2 (- 1021) \<le> \<bar>u / w\<bar>" and "\<bar>u / w\<bar> \<le> pow2 1022"
  shows "\<exists>z v. divide_py a b = Inr (PFloat z) \<and> exact (PFloat z) = Some v
             \<and> \<bar>v - u / w\<bar> \<le> pow2 (- 51) * \<bar>u / w\<bar>"
proof (cases "is_float a \<or> is_float b")
  case True
  have nz: "\<not> py_eq b (PInt 0)" using assms(4,5) by (rule exact_nonzero)
  show ?thesis
    using py_truediv_close [OF True assms] by (simp add: divide_py_nonzero [OF nz])
next
  case False
  then have same: "is_float a = is_float b" by simp
  have "pow2 (- 1022) \<le> pow2 (- 1021)" "pow2 1022 \<le> pow2 1023"
    by (simp_all add: pow2_le_iff)
  then have r: "pow2 (- 1022) \<le> \<bar>u / w\<bar>" "\<bar>u / w\<bar> \<le> pow2 1023"
    using assms(8,9) by linarith+
  obtain z v where zv: "divide_py a b = Inr (PFloat z)" "exact (PFloat z) = Some v"
    "\<bar>v - u / w\<bar> \<le> pow2 (- 53) * \<bar>u / w\<bar>"
    using divide_py_accurate [OF assms(1,2) same assms(3,4,5) r] by blast
  have "pow2 (- 53) \<le> pow2 (- 51)" by (simp add: pow2_le_iff)
  then have "pow2 (- 53) * \<bar>u / w\<bar> \<le> pow2 (- 51) * \<bar>u / w\<bar>"
    by (intro mult_right_mono) simp_all
  then have "\<bar>v - u / w\<bar> \<le> pow2 (- 51) * \<bar>u / w\<bar>" using zv(3) by linarith
  then show ?thesis using zv(1,2) by blast
qed

subsection \<open>Calls\<close>

text \<open>A body that changes the world is seen to: the caller gets the world it left.\<close>

lemma call_sees_the_world:
  "call (\<lambda>s. (Inr v, s\<lparr>world := f (world s)\<rparr>)) x y w = (Inr v, f w)"
  by (simp add: call_def)

lemma call_reads_the_world:
  "call (\<lambda>s. (Inr (g (world s)), s)) x y w = (Inr (g w), w)"
  by (simp add: call_def)

text \<open>
  Running the four bodies in a state that holds the parameters. Only the body of
  \<^verbatim>\<open>subtract\<close> changes the state, and only the frame: it binds its local name.
\<close>

lemma add_body_runs:
  "locals s ''a'' = Some x \<Longrightarrow> locals s ''b'' = Some y \<Longrightarrow> add_body s = (py_add x y, s)"
  by (simp add: add_body_def and_then_def load_fast_def outcome_def)

lemma subtract_body_runs:
  "locals s ''a'' = Some x \<Longrightarrow> locals s ''b'' = Some y \<Longrightarrow>
     subtract_body s = (py_sub x y, s\<lparr>locals := (locals s)(''unused_variable'' \<mapsto> PInt 123)\<rparr>)"
  by (simp add: subtract_body_def and_then_def load_fast_def store_fast_def outcome_def)

lemma multiply_body_runs:
  "locals s ''a'' = Some x \<Longrightarrow> locals s ''b'' = Some y \<Longrightarrow> multiply_body s = (py_mul x y, s)"
  by (simp add: multiply_body_def and_then_def load_fast_def outcome_def)

lemma divide_body_runs:
  "locals s ''a'' = Some x \<Longrightarrow> locals s ''b'' = Some y \<Longrightarrow>
     divide_body s =
       (if py_eq y (PInt 0) then Inl (ValueError ''Cannot divide by zero'') else py_truediv x y, s)"
  by (simp add: divide_body_def and_then_def load_fast_def outcome_def raises_def)

text \<open>A body that reads a name the frame does not hold raises, as the interpreter does.\<close>

lemma add_body_unbound:
  "locals s ''a'' = None \<Longrightarrow> add_body s = (Inl (UnboundLocalError ''a''), s)"
  by (simp add: add_body_def and_then_def load_fast_def)

text \<open>The four calls: the frame holds the arguments, and is dropped at the return.\<close>

lemma call_add_eq: "call_add a b w = (add a b, w)"
  by (simp add: call_add_def call_def add_body_runs add_def)

lemma call_subtract_eq: "call_subtract a b w = (subtract a b, w)"
  by (simp add: call_subtract_def call_def subtract_body_runs subtract_def)

lemma call_multiply_eq: "call_multiply a b w = (multiply a b, w)"
  by (simp add: call_multiply_def call_def multiply_body_runs multiply_def)

lemma call_divide_eq: "call_divide a b w = (divide_py a b, w)"
  by (simp add: call_divide_def call_def divide_body_runs divide_py_def)

section \<open>The repository's tests\<close>

text \<open>
  The assertions of \<^verbatim>\<open>tests/test_calculator.py\<close> hold in the model: each
  \<^verbatim>\<open>assert f(x, y) == z\<close> is \<open>eq_results (f x y) (Inr z)\<close>.
\<close>

lemma divide_py_exact_eq:
  assumes "j \<noteq> 0" and "j dvd i" and "\<bar>i div j\<bar> \<le> 2 ^ 53"
  shows "eq_results (divide_py (PInt i) (PInt j)) (Inr (PInt (i div j)))"
  using divide_py_exact [OF assms] by auto

lemma test_add:
  "eq_results (add (PInt 2) (PInt 3)) (Inr (PInt 5))"
  "eq_results (add (PInt (- 2)) (PInt (- 3))) (Inr (PInt (- 5)))"
  "eq_results (add (PInt 5) (PInt (- 3))) (Inr (PInt 2))"
  by (simp_all add: add_def)

lemma test_subtract:
  "eq_results (subtract (PInt 5) (PInt 3)) (Inr (PInt 2))"
  "eq_results (subtract (PInt (- 5)) (PInt (- 3))) (Inr (PInt (- 2)))"
  "eq_results (subtract (PInt 5) (PInt (- 3))) (Inr (PInt 8))"
  by (simp_all add: subtract_def)

lemma test_multiply:
  "eq_results (multiply (PInt 3) (PInt 4)) (Inr (PInt 12))"
  "eq_results (multiply (PInt (- 3)) (PInt (- 4))) (Inr (PInt 12))"
  "eq_results (multiply (PInt 3) (PInt (- 4))) (Inr (PInt (- 12)))"
  "eq_results (multiply (PInt 5) (PInt 0)) (Inr (PInt 0))"
  by (simp_all add: multiply_def)

lemma test_divide:
  "eq_results (divide_py (PInt 10) (PInt 2)) (Inr (PInt 5))"
  "eq_results (divide_py (PInt (- 10)) (PInt (- 2))) (Inr (PInt 5))"
  "eq_results (divide_py (PInt 10) (PInt (- 2))) (Inr (PInt (- 5)))"
  "divide_py (PInt 10) (PInt 0) = Inl (ValueError ''Cannot divide by zero'')"
  "eq_results (divide_py (PInt 0) (PInt 5)) (Inr (PInt 0))"
proof -
  show "eq_results (divide_py (PInt 10) (PInt 2)) (Inr (PInt 5))"
    using divide_py_exact_eq [of 2 10] by simp
  show "eq_results (divide_py (PInt (- 10)) (PInt (- 2))) (Inr (PInt 5))"
    using divide_py_exact_eq [of "- 2" "- 10"] by simp
  show "eq_results (divide_py (PInt 10) (PInt (- 2))) (Inr (PInt (- 5)))"
    using divide_py_exact_eq [of "- 2" 10] by simp
  show "divide_py (PInt 10) (PInt 0) = Inl (ValueError ''Cannot divide by zero'')"
    by (simp add: divide_py_def)
  show "eq_results (divide_py (PInt 0) (PInt 5)) (Inr (PInt 0))"
    using divide_py_exact_eq [of 5 0] by simp
qed

section \<open>The properties\<close>

text \<open>
  C1. For every number \<open>a\<close>, \<^verbatim>\<open>divide(a, 0)\<close> fails with the error carrying the
  message "Cannot divide by zero" (the specification's \<^verbatim>\<open>InvalidOperation\<close> is the
  source's \<^verbatim>\<open>ValueError\<close>). The test comes first: the outcome is this error for every
  dividend, also for one on which the division itself would raise another error, and for
  the float zeros of either sign as for the int zero.
\<close>
theorem divide_by_zero_raises:
  "divide_py a (PInt 0) = Inl (ValueError ''Cannot divide by zero'')
   \<and> divide_py a (PFloat (FNum s 0)) = Inl (ValueError ''Cannot divide by zero'')"
  by (simp add: divide_py_def signed_def)

text \<open>
  C6, as stated: \<^verbatim>\<open>add(a, b) == add(b, a)\<close> for every pair of numbers. It fails where
  the sum is a NaN, which equals nothing: the sum of the two infinities.
\<close>

theorem add_commutes_counterexample:
  "\<not> eq_results (add (PFloat (FInf False)) (PFloat (FInf True)))
                 (add (PFloat (FInf True)) (PFloat (FInf False)))"
  by (simp add: add_def float_op_def)

text \<open>
  C6, amended: \<^verbatim>\<open>add(a, b)\<close> and \<^verbatim>\<open>add(b, a)\<close> have the same outcome, the same
  error or the same value, and \<^verbatim>\<open>add(a, b) == add(b, a)\<close> holds whenever the value
  returned is not a NaN.
\<close>

theorem add_commutes:
  "add a b = add b a
   \<and> (\<forall>r. add a b = Inr r \<and> r \<noteq> PFloat FNaN \<longrightarrow> eq_results (add a b) (add b a))"
  using py_add_commute [of a b] by (auto simp: add_def py_eq_refl)

text \<open>The amended C6 at \<^verbatim>\<open>add(2, 3.0)\<close>, which returns 5.0.\<close>

theorem add_commutes_witness:
  "add (PInt 2) (PFloat (FNum False 3)) = add (PFloat (FNum False 3)) (PInt 2)
   \<and> eq_results (add (PInt 2) (PFloat (FNum False 3))) (add (PFloat (FNum False 3)) (PInt 2))"
proof -
  have "add (PInt 2) (PFloat (FNum False 3)) = Inr (PFloat (FNum False 5))"
    using round_mag_of_int [of 2] round_mag_of_int [of 5]
    by (simp add: add_def float_op_def float_of_int_def signed_def round_float_def)
  then show ?thesis
    using add_commutes [of "PInt 2" "PFloat (FNum False 3)"] by simp
qed
text \<open>
  C7, as stated: \<^verbatim>\<open>subtract(a, b) == -subtract(b, a)\<close> for every pair of numbers. It
  fails where the difference is a NaN: an infinity minus itself.
\<close>

theorem subtract_antisymmetric_counterexample:
  "\<not> eq_results (subtract (PFloat (FInf False)) (PFloat (FInf False)))
                 (neg_result (subtract (PFloat (FInf False)) (PFloat (FInf False))))"
  by (simp add: subtract_def float_op_def fsub_def)

text \<open>
  C7, amended: \<^verbatim>\<open>subtract(a, b)\<close> raises exactly when \<^verbatim>\<open>subtract(b, a)\<close> does,
  with the same error; one returns a NaN exactly when the other does; and whenever
  \<^verbatim>\<open>subtract(a, b)\<close> returns a value that is not a NaN,
  \<^verbatim>\<open>subtract(a, b) == -subtract(b, a)\<close> holds.
\<close>

theorem subtract_antisymmetric:
  "(subtract a b = Inl e \<longleftrightarrow> subtract b a = Inl e)
   \<and> (subtract a b = Inr (PFloat FNaN) \<longleftrightarrow> subtract b a = Inr (PFloat FNaN))
   \<and> (\<forall>r. subtract a b = Inr r \<and> r \<noteq> PFloat FNaN \<longrightarrow>
         eq_results (subtract a b) (neg_result (subtract b a)))"
proof -
  have "eq_results (py_sub a b) (neg_result (py_sub b a))"
    if "py_sub a b = Inr r" "r \<noteq> PFloat FNaN" for r
    using py_sub_antisym [OF that] that(1) by auto
  then show ?thesis
    using py_sub_Inl_commute [of a b e] py_sub_nan_iff [of a b]
    by (simp add: subtract_def)
qed

text \<open>The amended C7 at \<^verbatim>\<open>subtract(5, -3)\<close>, which returns 8.\<close>

theorem subtract_antisymmetric_witness:
  "subtract (PInt 5) (PInt (- 3)) = Inr (PInt 8)
   \<and> eq_results (subtract (PInt 5) (PInt (- 3))) (neg_result (subtract (PInt (- 3)) (PInt 5)))"
  using subtract_antisymmetric [of "PInt 5" "PInt (- 3)" OverflowError]
  by (simp add: subtract_def)

text \<open>
  C9. Each of the four operations is referentially transparent: called on the same
  arguments in any two worlds it has the same outcome (the same value, or the same error
  for a division by zero), namely the outcome of its expression on the arguments, and
  running its body leaves the world as the call found it.
\<close>

theorem referentially_transparent:
  "fst (call_add a b w) = fst (call_add a b w') \<and> snd (call_add a b w) = w
   \<and> fst (call_subtract a b w) = fst (call_subtract a b w') \<and> snd (call_subtract a b w) = w
   \<and> fst (call_multiply a b w) = fst (call_multiply a b w') \<and> snd (call_multiply a b w) = w
   \<and> fst (call_divide a b w) = fst (call_divide a b w') \<and> snd (call_divide a b w) = w
   \<and> fst (call_add a b w) = py_add a b
   \<and> fst (call_subtract a b w) = py_sub a b
   \<and> fst (call_multiply a b w) = py_mul a b
   \<and> fst (call_divide a b w)
       = (if py_eq b (PInt 0) then Inl (ValueError ''Cannot divide by zero'')
          else py_truediv a b)"
  by (simp add: call_add_eq call_subtract_eq call_multiply_eq call_divide_eq
      add_def subtract_def multiply_def divide_py_def)

text \<open>
  C10, as stated, says among other things that \<^verbatim>\<open>divide\<close> never returns an infinite
  value. It does, with a divisor that is not zero, when the float quotient overflows:
  \<^verbatim>\<open>divide(2.0 ** 1023, 0.5)\<close> is \<^verbatim>\<open>inf\<close>. Both operands are binary64 values.
\<close>

theorem divide_guard_counterexample:
  "is_double (FNum False (2 ^ 1023)) \<and> is_double (FNum False (1 / 2))
   \<and> \<not> py_eq (PFloat (FNum False (1 / 2))) (PInt 0)
   \<and> divide_py (PFloat (FNum False (2 ^ 1023))) (PFloat (FNum False (1 / 2)))
       = Inr (PFloat (FInf False))"
proof -
  have "(2 ^ 1023 / (1 / 2) :: rat) = 2 ^ 1024" by simp
  moreover have "round_mag (2 ^ 1024) = None"
    by (rule round_mag_overflow) (simp add: pow2_def)
  moreover have "round_mag (2 ^ 1023) = Some (2 ^ 1023)" "round_mag (1 / 2) = Some (1 / 2)"
    using round_mag_pow2 [of 1023] round_mag_pow2 [of "- 1"] by (simp_all add: pow2_def)
  ultimately show ?thesis
    by (simp add: divide_py_def signed_def float_op_def fdiv_def round_float_def)
qed

text \<open>
  C10, amended: \<^verbatim>\<open>divide(a, b)\<close> raises its \<^verbatim>\<open>ValueError\<close> exactly when
  \<^verbatim>\<open>b == 0\<close>, that is for the int 0 and the floats 0.0 and -0.0; it raises no
  \<^verbatim>\<open>ValueError\<close> otherwise and never a \<^verbatim>\<open>ZeroDivisionError\<close>, so it never divides
  by a zero divisor; for any other divisor it is \<^verbatim>\<open>a / b\<close>. An infinite value is
  returned only when an operand is a float, never for two ints.
\<close>

theorem divide_guard:
  "(divide_py a b = Inl (ValueError ''Cannot divide by zero'') \<longleftrightarrow> py_eq b (PInt 0))
   \<and> (py_eq b (PInt 0) \<longleftrightarrow> b = PInt 0 \<or> (\<exists>s. b = PFloat (FNum s 0)))
   \<and> (\<forall>m. divide_py a b = Inl (ValueError m) \<longrightarrow> py_eq b (PInt 0))
   \<and> divide_py a b \<noteq> Inl ZeroDivisionError
   \<and> (\<not> py_eq b (PInt 0) \<longrightarrow> divide_py a b = py_truediv a b)
   \<and> (\<forall>s. divide_py a b = Inr (PFloat (FInf s)) \<longrightarrow> is_float a \<or> is_float b)"
proof -
  have 1: "py_truediv a b \<noteq> Inl (ValueError m)" "py_truediv a b \<noteq> Inl ZeroDivisionError"
    if "\<not> py_eq b (PInt 0)" for m
    using py_truediv_Inl_iff [OF that] by auto
  have 2: "is_float a \<or> is_float b" if "py_truediv a b = Inr (PFloat (FInf s))" for s
    using that py_truediv_ints_finite by (cases a; cases b) auto
  show ?thesis
    using 1 2 py_eq_zero_iff [of b] by (auto simp: divide_py_def)
qed

text \<open>The amended C10 at \<^verbatim>\<open>divide(1, -0.0)\<close> and at \<^verbatim>\<open>divide(10, 2)\<close>.\<close>

theorem divide_guard_witness:
  "divide_py (PInt 1) (PFloat (FNum True 0)) = Inl (ValueError ''Cannot divide by zero'')
   \<and> py_eq (PFloat (FNum True 0)) (PInt 0)
   \<and> \<not> py_eq (PInt 2) (PInt 0)
   \<and> divide_py (PInt 10) (PInt 2) = py_truediv (PInt 10) (PInt 2)"
  using divide_guard [of "PInt 1" "PFloat (FNum True 0)"] divide_guard [of "PInt 10" "PInt 2"]
  by auto
text \<open>
  C2, as stated: for a divisor other than zero \<^verbatim>\<open>divide\<close> returns the quotient and
  raises no error. It raises \<^verbatim>\<open>OverflowError\<close> when the quotient of two ints is too
  large for a float: \<^verbatim>\<open>divide(2 ** 1024, 1)\<close>.
\<close>

theorem divide_quotient_counterexample:
  "\<not> py_eq (PInt 1) (PInt 0) \<and> divide_py (PInt (2 ^ 1024)) (PInt 1) = Inl OverflowError"
proof -
  have 1: "\<not> py_eq (PInt 1) (PInt 0)" by simp
  have "py_truediv (PInt (2 ^ 1024)) (PInt 1) = Inl OverflowError"
    using quotient_too_large_2_1024 by (simp only: py_truediv_Inl_iff [OF 1] simp_thms)
  then show ?thesis using 1 by (simp only: divide_py_nonzero [OF 1] simp_thms)
qed

text \<open>
  C2, amended: for every \<open>a\<close> and every \<open>b\<close> with \<^verbatim>\<open>b != 0\<close>, \<^verbatim>\<open>divide(a, b)\<close> has
  the outcome of the true division \<^verbatim>\<open>a / b\<close>; what it returns is a float, also for two
  ints. It raises no error, except \<^verbatim>\<open>OverflowError\<close> exactly when the operands are two
  ints whose quotient has magnitude \<open>2\<^sup>1\<^sup>0\<^sup>2\<^sup>4 - 2\<^sup>9\<^sup>7\<^sup>0\<close> or more, or an int of that magnitude
  and a float. What the quotient is, for finite operands with the exact quotient \<open>q\<close>:
  for two ints, or operands taken at their exact values (floats, ints up to \<open>2\<^sup>5\<^sup>3\<close> in
  magnitude), the float is \<open>q\<close> itself when \<open>q\<close> is a binary64 value, and within
  \<open>2\<^sup>-\<^sup>5\<^sup>3 \<bar>q\<bar>\<close> of \<open>q\<close> when \<open>2\<^sup>-\<^sup>1\<^sup>0\<^sup>2\<^sup>2 \<le> \<bar>q\<bar> \<le> 2\<^sup>1\<^sup>0\<^sup>2\<^sup>3\<close>; for operands of any types and of
  magnitude up to \<open>2\<^sup>1\<^sup>0\<^sup>2\<^sup>3\<close>, within \<open>2\<^sup>-\<^sup>5\<^sup>1 \<bar>q\<bar>\<close> of \<open>q\<close> when \<open>2\<^sup>-\<^sup>1\<^sup>0\<^sup>2\<^sup>1 \<le> \<bar>q\<bar> \<le> 2\<^sup>1\<^sup>0\<^sup>2\<^sup>2\<close>: the
  true quotient rounded, never the floor quotient.
\<close>

theorem divide_quotient:
  "(\<not> py_eq b (PInt 0) \<longrightarrow> divide_py a b = py_truediv a b)
   \<and> (\<forall>r. divide_py a b = Inr r \<longrightarrow> is_float r)
   \<and> (\<not> py_eq b (PInt 0) \<longrightarrow>
        (divide_py a b = Inl e \<longleftrightarrow> e = OverflowError \<and> quotient_too_large a b))
   \<and> (\<forall>u w. is_num a \<and> is_num b
         \<and> (\<not> is_float a \<and> \<not> is_float b \<or> float_exact a \<and> float_exact b)
         \<and> exact a = Some u \<and> exact b = Some w \<and> w \<noteq> 0
         \<and> round_mag \<bar>u / w\<bar> = Some \<bar>u / w\<bar> \<longrightarrow>
         (\<exists>z. divide_py a b = Inr (PFloat z) \<and> exact (PFloat z) = Some (u / w)))
   \<and> (\<forall>u w. is_num a \<and> is_num b
         \<and> (\<not> is_float a \<and> \<not> is_float b \<or> float_exact a \<and> float_exact b)
         \<and> exact a = Some u \<and> exact b = Some w \<and> w \<noteq> 0
         \<and> pow2 (- 1022) \<le> \<bar>u / w\<bar> \<and> \<bar>u / w\<bar> \<le> pow2 1023 \<longrightarrow>
         (\<exists>z v. divide_py a b = Inr (PFloat z) \<and> exact (PFloat z) = Some v
                \<and> \<bar>v - u / w\<bar> \<le> pow2 (- 53) * \<bar>u / w\<bar>))
   \<and> (\<forall>u w. is_num a \<and> is_num b
         \<and> exact a = Some u \<and> exact b = Some w \<and> w \<noteq> 0
         \<and> \<bar>u\<bar> \<le> pow2 1023 \<and> \<bar>w\<bar> \<le> pow2 1023
         \<and> pow2 (- 1021) \<le> \<bar>u / w\<bar> \<and> \<bar>u / w\<bar> \<le> pow2 1022 \<longrightarrow>
         (\<exists>z v. divide_py a b = Inr (PFloat z) \<and> exact (PFloat z) = Some v
                \<and> \<bar>v - u / w\<bar> \<le> pow2 (- 51) * \<bar>u / w\<bar>))
   \<and> (\<forall>i j. a = PInt i \<and> b = PInt j \<and> j \<noteq> 0 \<and> j dvd i \<and> \<bar>i div j\<bar> \<le> 2 ^ 53 \<longrightarrow>
         (\<exists>z. divide_py a b = Inr (PFloat z) \<and> py_eq (PFloat z) (PInt (i div j))))"
proof -
  have 1: "\<not> py_eq b (PInt 0) \<longrightarrow> divide_py a b = py_truediv a b"
    by (simp add: divide_py_def)
  have 2: "\<forall>r. divide_py a b = Inr r \<longrightarrow> is_float r"
    using py_truediv_is_float [of a b] by (simp add: divide_py_def split: if_splits)
  have 3: "\<not> py_eq b (PInt 0) \<longrightarrow>
        (divide_py a b = Inl e \<longleftrightarrow> e = OverflowError \<and> quotient_too_large a b)"
    using py_truediv_Inl_iff [of b a e] by (simp add: divide_py_def)
  have 4: "\<forall>u w. is_num a \<and> is_num b
         \<and> (\<not> is_float a \<and> \<not> is_float b \<or> float_exact a \<and> float_exact b)
         \<and> exact a = Some u \<and> exact b = Some w \<and> w \<noteq> 0
         \<and> round_mag \<bar>u / w\<bar> = Some \<bar>u / w\<bar> \<longrightarrow>
         (\<exists>z. divide_py a b = Inr (PFloat z) \<and> exact (PFloat z) = Some (u / w))"
    using divide_py_representable [of a b] by blast
  have 5: "\<forall>u w. is_num a \<and> is_num b
         \<and> (\<not> is_float a \<and> \<not> is_float b \<or> float_exact a \<and> float_exact b)
         \<and> exact a = Some u \<and> exact b = Some w \<and> w \<noteq> 0
         \<and> pow2 (- 1022) \<le> \<bar>u / w\<bar> \<and> \<bar>u / w\<bar> \<le> pow2 1023 \<longrightarrow>
         (\<exists>z v. divide_py a b = Inr (PFloat z) \<and> exact (PFloat z) = Some v
                \<and> \<bar>v - u / w\<bar> \<le> pow2 (- 53) * \<bar>u / w\<bar>)"
    using divide_py_accurate_operands [of a b] by blast
  have 6: "\<forall>u w. is_num a \<and> is_num b
         \<and> exact a = Some u \<and> exact b = Some w \<and> w \<noteq> 0
         \<and> \<bar>u\<bar> \<le> pow2 1023 \<and> \<bar>w\<bar> \<le> pow2 1023
         \<and> pow2 (- 1021) \<le> \<bar>u / w\<bar> \<and> \<bar>u / w\<bar> \<le> pow2 1022 \<longrightarrow>
         (\<exists>z v. divide_py a b = Inr (PFloat z) \<and> exact (PFloat z) = Some v
                \<and> \<bar>v - u / w\<bar> \<le> pow2 (- 51) * \<bar>u / w\<bar>)"
    using divide_py_close [of a b] by blast
  have 7: "\<forall>i j. a = PInt i \<and> b = PInt j \<and> j \<noteq> 0 \<and> j dvd i \<and> \<bar>i div j\<bar> \<le> 2 ^ 53 \<longrightarrow>
         (\<exists>z. divide_py a b = Inr (PFloat z) \<and> py_eq (PFloat z) (PInt (i div j)))"
    using divide_py_exact by blast
  show ?thesis using 1 2 3 4 5 6 7 by blast
qed

text \<open>
  The amended C2 at \<^verbatim>\<open>divide(1, 3)\<close>, \<^verbatim>\<open>divide(7.0, 2)\<close>, \<^verbatim>\<open>divide(10, -2)\<close> and
  \<^verbatim>\<open>divide(2 ** 1024, 1)\<close>.
\<close>

theorem divide_quotient_witness:
  "(\<exists>z v. divide_py (PInt 1) (PInt 3) = Inr (PFloat z) \<and> exact (PFloat z) = Some v
         \<and> \<bar>v - 1 / 3\<bar> \<le> pow2 (- 53) * (1 / 3))
   \<and> is_num (PFloat (FNum False 7))
   \<and> \<not> py_eq (PInt 2) (PInt 0)
   \<and> divide_py (PFloat (FNum False 7)) (PInt 2) = py_truediv (PFloat (FNum False 7)) (PInt 2)
   \<and> (\<exists>z. divide_py (PFloat (FNum False 7)) (PInt 2) = Inr (PFloat z)
          \<and> exact (PFloat z) = Some (7 / 2))
   \<and> (\<exists>z v. divide_py (PFloat (FNum False 7)) (PInt 2) = Inr (PFloat z)
          \<and> exact (PFloat z) = Some v \<and> \<bar>v - 7 / 2\<bar> \<le> pow2 (- 51) * (7 / 2))
   \<and> (\<exists>z. divide_py (PInt 10) (PInt (- 2)) = Inr (PFloat z) \<and> py_eq (PFloat z) (PInt (- 5)))
   \<and> quotient_too_large (PInt (2 ^ 1024)) (PInt 1)
   \<and> divide_py (PInt (2 ^ 1024)) (PInt 1) = Inl OverflowError"
proof -
  have r: "pow2 (- 1022) \<le> 1 / 3" "1 / 3 \<le> pow2 1023" "7 \<le> pow2 1023" "2 \<le> pow2 1023"
    "pow2 (- 1021) \<le> 7 / 2" "7 / 2 \<le> pow2 1022"
    using pow2_mono [of "- 1022" "- 2"] pow2_mono [of 0 1023] pow2_mono [of 3 1023]
      pow2_mono [of 1 1023] pow2_mono [of "- 1021" 0] pow2_mono [of 2 1022]
    by (simp_all add: pow2_def)
  have m: "round_mag 7 = Some 7" "round_mag (7 / 2) = Some (7 / 2)"
    using round_mag_of_int [of 7] round_mag_exact [of 7 "- 1"]
    by (simp_all add: pow2_def)
  note thirds = divide_quotient [of "PInt 3" "PInt 1" OverflowError]
  note halves = divide_quotient [of "PInt 2" "PFloat (FNum False 7)" OverflowError]
  note fives = divide_quotient [of "PInt (- 2)" "PInt 10" OverflowError]
  note big = divide_quotient [of "PInt 1" "PInt (2 ^ 1024)" OverflowError]
  have "\<exists>z v. divide_py (PInt 1) (PInt 3) = Inr (PFloat z) \<and> exact (PFloat z) = Some v
         \<and> \<bar>v - 1 / 3\<bar> \<le> pow2 (- 53) * \<bar>1 / 3\<bar>"
    by (rule thirds [THEN conjunct2, THEN conjunct2, THEN conjunct2, THEN conjunct2,
          THEN conjunct1, rule_format, of 1 3])
      (use r in simp)
  then have 1: "\<exists>z v. divide_py (PInt 1) (PInt 3) = Inr (PFloat z) \<and> exact (PFloat z) = Some v
         \<and> \<bar>v - 1 / 3\<bar> \<le> pow2 (- 53) * (1 / 3)" by simp
  have n: "is_num (PFloat (FNum False 7))" by (simp add: m)
  have nz: "\<not> py_eq (PInt 2) (PInt 0)" by simp
  have 2: "divide_py (PFloat (FNum False 7)) (PInt 2) = py_truediv (PFloat (FNum False 7)) (PInt 2)"
    using halves [THEN conjunct1] nz by blast
  have 3: "\<exists>z. divide_py (PFloat (FNum False 7)) (PInt 2) = Inr (PFloat z)
          \<and> exact (PFloat z) = Some (7 / 2)"
    by (rule halves [THEN conjunct2, THEN conjunct2, THEN conjunct2, THEN conjunct1,
          rule_format, of 7 2])
      (simp add: m signed_def)
  have "\<exists>z v. divide_py (PFloat (FNum False 7)) (PInt 2) = Inr (PFloat z)
          \<and> exact (PFloat z) = Some v \<and> \<bar>v - 7 / 2\<bar> \<le> pow2 (- 51) * \<bar>7 / 2\<bar>"
    by (rule halves [THEN conjunct2, THEN conjunct2, THEN conjunct2, THEN conjunct2,
          THEN conjunct2, THEN conjunct1, rule_format, of 7 2])
      (use m r in \<open>simp add: signed_def\<close>)
  then have 4: "\<exists>z v. divide_py (PFloat (FNum False 7)) (PInt 2) = Inr (PFloat z)
          \<and> exact (PFloat z) = Some v \<and> \<bar>v - 7 / 2\<bar> \<le> pow2 (- 51) * (7 / 2)" by simp
  have "\<exists>z. divide_py (PInt 10) (PInt (- 2)) = Inr (PFloat z)
          \<and> py_eq (PFloat z) (PInt (10 div - 2))"
    by (rule fives [THEN conjunct2, THEN conjunct2, THEN conjunct2, THEN conjunct2,
          THEN conjunct2, THEN conjunct2, rule_format, of 10 "- 2"])
      simp
  then have 5: "\<exists>z. divide_py (PInt 10) (PInt (- 2)) = Inr (PFloat z)
          \<and> py_eq (PFloat z) (PInt (- 5))" by simp
  have nz1: "\<not> py_eq (PInt 1) (PInt 0)" by simp
  have 6: "divide_py (PInt (2 ^ 1024)) (PInt 1) = Inl OverflowError"
    using big [THEN conjunct2, THEN conjunct2, THEN conjunct1] nz1
      quotient_too_large_2_1024 by blast
  show ?thesis using 1 n nz 2 3 4 5 6 quotient_too_large_2_1024 by blast
qed

text \<open>
  C3, as stated: \<^verbatim>\<open>add\<close> returns the sum and never fails. It fails on an int and a
  float when the int is too large to be converted: \<^verbatim>\<open>add(2 ** 1024, 1.0)\<close> raises
  \<^verbatim>\<open>OverflowError\<close>.
\<close>

theorem add_sum_counterexample:
  "add (PInt (2 ^ 1024)) (PFloat (FNum False 1)) = Inl OverflowError"
  using unconvertible_2_1024 [of "FNum False 1"] by (simp only: add_def py_add_Inl_iff simp_thms)

text \<open>
  C3, amended: \<^verbatim>\<open>add(a, b)\<close> has the outcome of \<^verbatim>\<open>a + b\<close> under Python's numeric
  addition and no side effect: a call gives that outcome and leaves the world as it
  found it. It never fails, except that it raises \<^verbatim>\<open>OverflowError\<close> exactly when one
  operand is a float and the other an int of magnitude \<open>2\<^sup>1\<^sup>0\<^sup>2\<^sup>4 - 2\<^sup>9\<^sup>7\<^sup>0\<close> or more.
  What the sum is: for two ints exactly their sum, an int; otherwise a float, and for
  operands taken at their exact values (floats, ints up to \<open>2\<^sup>5\<^sup>3\<close> in magnitude) with the
  exact sum \<open>s\<close>, the float is \<open>s\<close> itself when \<open>s\<close> is a binary64 value, and within
  \<open>2\<^sup>-\<^sup>5\<^sup>3 \<bar>s\<bar>\<close> of \<open>s\<close> when \<open>2\<^sup>-\<^sup>1\<^sup>0\<^sup>2\<^sup>2 \<le> \<bar>s\<bar> \<le> 2\<^sup>1\<^sup>0\<^sup>2\<^sup>3\<close>.
\<close>

theorem add_sum:
  "add a b = py_add a b
   \<and> call_add a b w0 = (add a b, w0)
   \<and> add (PInt i) (PInt j) = Inr (PInt (i + j))
   \<and> (add a b = Inl e \<longleftrightarrow> e = OverflowError \<and> unconvertible a b)
   \<and> (\<forall>r. add a b = Inr r \<longrightarrow> is_float r = (is_float a \<or> is_float b))
   \<and> (\<forall>u w. (is_float a \<or> is_float b) \<and> float_exact a \<and> float_exact b
         \<and> exact a = Some u \<and> exact b = Some w
         \<and> round_mag \<bar>u + w\<bar> = Some \<bar>u + w\<bar> \<longrightarrow>
         (\<exists>z. add a b = Inr (PFloat z) \<and> exact (PFloat z) = Some (u + w)))
   \<and> (\<forall>u w. (is_float a \<or> is_float b) \<and> float_exact a \<and> float_exact b
         \<and> exact a = Some u \<and> exact b = Some w
         \<and> pow2 (- 1022) \<le> \<bar>u + w\<bar> \<and> \<bar>u + w\<bar> \<le> pow2 1023 \<longrightarrow>
         (\<exists>z v. add a b = Inr (PFloat z) \<and> exact (PFloat z) = Some v
                \<and> \<bar>v - (u + w)\<bar> \<le> pow2 (- 53) * \<bar>u + w\<bar>))"
proof -
  have 1: "add a b = py_add a b" by (simp add: add_def)
  have 2: "call_add a b w0 = (add a b, w0)" by (rule call_add_eq)
  have 3: "add (PInt i) (PInt j) = Inr (PInt (i + j))" by (simp add: add_def)
  have 4: "add a b = Inl e \<longleftrightarrow> e = OverflowError \<and> unconvertible a b"
    unfolding 1 by (rule py_add_Inl_iff)
  have 5: "\<forall>r. add a b = Inr r \<longrightarrow> is_float r = (is_float a \<or> is_float b)"
    unfolding 1 using py_add_is_float by blast
  have 6: "\<forall>u w. (is_float a \<or> is_float b) \<and> float_exact a \<and> float_exact b
         \<and> exact a = Some u \<and> exact b = Some w
         \<and> round_mag \<bar>u + w\<bar> = Some \<bar>u + w\<bar> \<longrightarrow>
         (\<exists>z. add a b = Inr (PFloat z) \<and> exact (PFloat z) = Some (u + w))"
    unfolding 1 using py_add_exact [of a b] by blast
  have 7: "\<forall>u w. (is_float a \<or> is_float b) \<and> float_exact a \<and> float_exact b
         \<and> exact a = Some u \<and> exact b = Some w
         \<and> pow2 (- 1022) \<le> \<bar>u + w\<bar> \<and> \<bar>u + w\<bar> \<le> pow2 1023 \<longrightarrow>
         (\<exists>z v. add a b = Inr (PFloat z) \<and> exact (PFloat z) = Some v
                \<and> \<bar>v - (u + w)\<bar> \<le> pow2 (- 53) * \<bar>u + w\<bar>)"
    unfolding 1 using py_add_accurate [of a b] by blast
  show ?thesis using 1 2 3 4 5 6 7 by blast
qed

text \<open>
  The amended C3 at \<^verbatim>\<open>add(2, 3)\<close>, \<^verbatim>\<open>add(2 ** 1024, 1.0)\<close>, \<^verbatim>\<open>add(2, 3.0)\<close>,
  \<^verbatim>\<open>add(1.0, -1.0)\<close> and \<^verbatim>\<open>add(1.0, 2.0)\<close>.
\<close>

theorem add_sum_witness:
  "add (PInt 2) (PInt 3) = Inr (PInt 5)
   \<and> call_add (PInt 2) (PInt 3) (0 :: nat) = (Inr (PInt 5), 0)
   \<and> unconvertible (PInt (2 ^ 1024)) (PFloat (FNum False 1))
   \<and> add (PInt (2 ^ 1024)) (PFloat (FNum False 1)) = Inl OverflowError
   \<and> (\<exists>z. add (PInt 2) (PFloat (FNum False 3)) = Inr (PFloat z) \<and> exact (PFloat z) = Some 5)
   \<and> (\<exists>z. add (PFloat (FNum False 1)) (PFloat (FNum True 1)) = Inr (PFloat z)
          \<and> exact (PFloat z) = Some 0)
   \<and> (\<exists>z v. add (PFloat (FNum False 1)) (PFloat (FNum False 2)) = Inr (PFloat z)
          \<and> exact (PFloat z) = Some v \<and> \<bar>v - 3\<bar> \<le> pow2 (- 53) * 3)"
proof -
  have r: "pow2 (- 1022) \<le> 3" "3 \<le> pow2 1023"
    using pow2_mono [of "- 1022" 0] pow2_mono [of 2 1023] by (simp_all add: pow2_def)
  have m: "round_mag 5 = Some 5" using round_mag_of_int [of 5] by simp
  note ints = add_sum [of "PInt 2" "PInt 3" "0 :: nat" 2 3 OverflowError]
  note big = add_sum [of "PInt (2 ^ 1024)" "PFloat (FNum False 1)" "0 :: nat" 2 3 OverflowError]
  note mixed = add_sum [of "PInt 2" "PFloat (FNum False 3)" "0 :: nat" 2 3 OverflowError]
  note zero = add_sum [of "PFloat (FNum False 1)" "PFloat (FNum True 1)" "0 :: nat" 2 3
      OverflowError]
  note floats = add_sum [of "PFloat (FNum False 1)" "PFloat (FNum False 2)" "0 :: nat" 2 3
      OverflowError]
  have 1: "add (PInt 2) (PInt 3) = Inr (PInt 5)"
    using ints [THEN conjunct2, THEN conjunct2, THEN conjunct1] by simp
  have 2: "call_add (PInt 2) (PInt 3) (0 :: nat) = (Inr (PInt 5), 0)"
    using ints [THEN conjunct2, THEN conjunct1] 1 by simp
  have 3: "add (PInt (2 ^ 1024)) (PFloat (FNum False 1)) = Inl OverflowError"
    using big [THEN conjunct2, THEN conjunct2, THEN conjunct2, THEN conjunct1]
      unconvertible_2_1024 [of "FNum False 1"] by blast
  have "\<exists>z. add (PInt 2) (PFloat (FNum False 3)) = Inr (PFloat z)
          \<and> exact (PFloat z) = Some (2 + 3)"
    by (rule mixed [THEN conjunct2, THEN conjunct2, THEN conjunct2, THEN conjunct2,
          THEN conjunct2, THEN conjunct1, rule_format, of 2 3])
      (simp add: m signed_def)
  then have 4: "\<exists>z. add (PInt 2) (PFloat (FNum False 3)) = Inr (PFloat z)
          \<and> exact (PFloat z) = Some 5" by simp
  have "\<exists>z. add (PFloat (FNum False 1)) (PFloat (FNum True 1)) = Inr (PFloat z)
          \<and> exact (PFloat z) = Some (1 + - 1)"
    by (rule zero [THEN conjunct2, THEN conjunct2, THEN conjunct2, THEN conjunct2,
          THEN conjunct2, THEN conjunct1, rule_format, of 1 "- 1"])
      (simp add: signed_def)
  then have 5: "\<exists>z. add (PFloat (FNum False 1)) (PFloat (FNum True 1)) = Inr (PFloat z)
          \<and> exact (PFloat z) = Some 0" by simp
  have "\<exists>z v. add (PFloat (FNum False 1)) (PFloat (FNum False 2)) = Inr (PFloat z)
          \<and> exact (PFloat z) = Some v \<and> \<bar>v - (1 + 2)\<bar> \<le> pow2 (- 53) * \<bar>1 + 2\<bar>"
    by (rule floats [THEN conjunct2, THEN conjunct2, THEN conjunct2, THEN conjunct2,
          THEN conjunct2, THEN conjunct2, rule_format, of 1 2])
      (simp add: r signed_def)
  then have 6: "\<exists>z v. add (PFloat (FNum False 1)) (PFloat (FNum False 2)) = Inr (PFloat z)
          \<and> exact (PFloat z) = Some v \<and> \<bar>v - 3\<bar> \<le> pow2 (- 53) * 3" by simp
  show ?thesis using 1 2 3 4 5 6 unconvertible_2_1024 [of "FNum False 1"] by blast
qed

text \<open>
  C4, as stated: \<^verbatim>\<open>subtract\<close> returns the difference and never fails. It fails on an
  int and a float when the int is too large to be converted:
  \<^verbatim>\<open>subtract(2 ** 1024, 1.0)\<close> raises \<^verbatim>\<open>OverflowError\<close>.
\<close>

theorem subtract_difference_counterexample:
  "subtract (PInt (2 ^ 1024)) (PFloat (FNum False 1)) = Inl OverflowError"
  using unconvertible_2_1024 [of "FNum False 1"]
  by (simp only: subtract_def Let_def py_sub_Inl_iff simp_thms)

text \<open>
  C4, amended: \<^verbatim>\<open>subtract(a, b)\<close> has the outcome of the plain expression
  \<^verbatim>\<open>a - b\<close>, the dead assignment having no effect. For two ints it returns exactly
  their difference, an int. It fails, with \<^verbatim>\<open>OverflowError\<close>, exactly when one operand
  is a float and the other an int of magnitude \<open>2\<^sup>1\<^sup>0\<^sup>2\<^sup>4 - 2\<^sup>9\<^sup>7\<^sup>0\<close> or more. The value
  returned is a float exactly when an operand is one. For two finite floats whose exact
  difference \<open>d\<close> has \<open>2\<^sup>-\<^sup>1\<^sup>0\<^sup>2\<^sup>2 \<le> \<bar>d\<bar> \<le> 2\<^sup>1\<^sup>0\<^sup>2\<^sup>3\<close>, the float returned is finite and within
  \<open>2\<^sup>-\<^sup>5\<^sup>3 \<bar>d\<bar>\<close> of \<open>d\<close>.
\<close>

theorem subtract_difference:
  "subtract a b = py_sub a b
   \<and> subtract (PInt i) (PInt j) = Inr (PInt (i - j))
   \<and> (subtract a b = Inl e \<longleftrightarrow> e = OverflowError \<and> unconvertible a b)
   \<and> (\<forall>r. subtract a b = Inr r \<longrightarrow> is_float r = (is_float a \<or> is_float b))
   \<and> (\<forall>u w. exact (PFloat x) = Some u \<and> exact (PFloat y) = Some w
         \<and> pow2 (- 1022) \<le> \<bar>u - w\<bar> \<and> \<bar>u - w\<bar> \<le> pow2 1023 \<longrightarrow>
         (\<exists>z v. subtract (PFloat x) (PFloat y) = Inr (PFloat z) \<and> exact (PFloat z) = Some v
                \<and> \<bar>v - (u - w)\<bar> \<le> pow2 (- 53) * \<bar>u - w\<bar>))"
proof -
  have acc: "\<exists>z v. subtract (PFloat x) (PFloat y) = Inr (PFloat z) \<and> exact (PFloat z) = Some v
                \<and> \<bar>v - (u - w)\<bar> \<le> pow2 (- 53) * \<bar>u - w\<bar>"
    if h: "exact (PFloat x) = Some u" "exact (PFloat y) = Some w"
      "pow2 (- 1022) \<le> \<bar>u - w\<bar>" "\<bar>u - w\<bar> \<le> pow2 1023" for u w
  proof -
    obtain s p t q where x: "x = FNum s p" "u = signed s p" and y: "y = FNum t q" "w = signed t q"
      using h(1,2) unfolding exact_PFloat_Some by blast
    obtain s' v where "fsub (FNum s p) (FNum t q) = FNum s' v"
      "\<bar>signed s' v - (u - w)\<bar> \<le> pow2 (- 53) * \<bar>u - w\<bar>"
      using fsub_accurate [of s p t q] h(3,4) unfolding x y by blast
    then show ?thesis
      unfolding x(1) y(1) subtract_def Let_def
      by (intro exI [of _ "FNum s' v"] exI [of _ "signed s' v"]) simp
  qed
  show ?thesis
    using acc py_sub_Inl_iff [of a b e] py_sub_is_float [of a b]
    by (simp add: subtract_def)
qed

text \<open>
  The amended C4 at \<^verbatim>\<open>subtract(5, 3)\<close>, \<^verbatim>\<open>subtract(2 ** 1024, 1.0)\<close> and
  \<^verbatim>\<open>subtract(5.0, 2.0)\<close>.
\<close>

theorem subtract_difference_witness:
  "subtract (PInt 5) (PInt 3) = Inr (PInt 2)
   \<and> unconvertible (PInt (2 ^ 1024)) (PFloat (FNum False 1))
   \<and> subtract (PInt (2 ^ 1024)) (PFloat (FNum False 1)) = Inl OverflowError
   \<and> (\<exists>z v. subtract (PFloat (FNum False 5)) (PFloat (FNum False 2)) = Inr (PFloat z)
          \<and> exact (PFloat z) = Some v \<and> \<bar>v - 3\<bar> \<le> pow2 (- 53) * 3)"
proof -
  have 1: "pow2 (- 1022) \<le> 3" "3 \<le> pow2 1023"
    using pow2_mono [of "- 1022" 0] pow2_mono [of 2 1023] by (simp_all add: pow2_def)
  show ?thesis
    using subtract_difference [of "PInt (2 ^ 1024)" "PFloat (FNum False 1)" 5 3 OverflowError
        "FNum False 5" "FNum False 2"] unconvertible_2_1024 [of "FNum False 1"] 1
    by (auto simp add: signed_def simp del: unconvertible_float py_sub.simps)
qed

text \<open>
  C5, as stated: \<^verbatim>\<open>multiply\<close> returns the product and never fails. It fails on an int
  and a float when the int is too large to be converted:
  \<^verbatim>\<open>multiply(2 ** 1024, 1.0)\<close> raises \<^verbatim>\<open>OverflowError\<close>.
\<close>

theorem multiply_product_counterexample:
  "multiply (PInt (2 ^ 1024)) (PFloat (FNum False 1)) = Inl OverflowError"
  using unconvertible_2_1024 [of "FNum False 1"]
  by (simp only: multiply_def py_mul_Inl_iff simp_thms)

text \<open>
  C5, amended: \<^verbatim>\<open>multiply(a, b)\<close> has the outcome of \<^verbatim>\<open>a * b\<close> under Python's
  numeric multiplication and no side effect: a call gives that outcome and leaves the
  world as it found it. It never fails, except that it raises \<^verbatim>\<open>OverflowError\<close>
  exactly when one operand is a float and the other an int of magnitude
  \<open>2\<^sup>1\<^sup>0\<^sup>2\<^sup>4 - 2\<^sup>9\<^sup>7\<^sup>0\<close> or more. What the product is: for two ints exactly their product, an
  int; otherwise a float, and for finite operands with the exact product \<open>p\<close>: taken at
  their exact values (floats, ints up to \<open>2\<^sup>5\<^sup>3\<close> in magnitude), the float is \<open>p\<close> itself when
  \<open>p\<close> is a binary64 value, and within \<open>2\<^sup>-\<^sup>5\<^sup>3 \<bar>p\<bar>\<close> of \<open>p\<close> when \<open>2\<^sup>-\<^sup>1\<^sup>0\<^sup>2\<^sup>2 \<le> \<bar>p\<bar> \<le> 2\<^sup>1\<^sup>0\<^sup>2\<^sup>3\<close>;
  of any magnitude up to \<open>2\<^sup>1\<^sup>0\<^sup>2\<^sup>3\<close>, within \<open>2\<^sup>-\<^sup>5\<^sup>1 \<bar>p\<bar>\<close> of \<open>p\<close> when
  \<open>2\<^sup>-\<^sup>1\<^sup>0\<^sup>2\<^sup>1 \<le> \<bar>p\<bar> \<le> 2\<^sup>1\<^sup>0\<^sup>2\<^sup>2\<close>.
\<close>

theorem multiply_product:
  "multiply a b = py_mul a b
   \<and> call_multiply a b w0 = (multiply a b, w0)
   \<and> multiply (PInt i) (PInt j) = Inr (PInt (i * j))
   \<and> (multiply a b = Inl e \<longleftrightarrow> e = OverflowError \<and> unconvertible a b)
   \<and> (\<forall>r. multiply a b = Inr r \<longrightarrow> is_float r = (is_float a \<or> is_float b))
   \<and> (\<forall>u w. (is_float a \<or> is_float b) \<and> float_exact a \<and> float_exact b
         \<and> is_num a \<and> is_num b \<and> exact a = Some u \<and> exact b = Some w
         \<and> round_mag \<bar>u * w\<bar> = Some \<bar>u * w\<bar> \<longrightarrow>
         (\<exists>z. multiply a b = Inr (PFloat z) \<and> exact (PFloat z) = Some (u * w)))
   \<and> (\<forall>u w. (is_float a \<or> is_float b) \<and> float_exact a \<and> float_exact b
         \<and> is_num a \<and> is_num b \<and> exact a = Some u \<and> exact b = Some w
         \<and> pow2 (- 1022) \<le> \<bar>u * w\<bar> \<and> \<bar>u * w\<bar> \<le> pow2 1023 \<longrightarrow>
         (\<exists>z v. multiply a b = Inr (PFloat z) \<and> exact (PFloat z) = Some v
                \<and> \<bar>v - u * w\<bar> \<le> pow2 (- 53) * \<bar>u * w\<bar>))
   \<and> (\<forall>u w. (is_float a \<or> is_float b) \<and> is_num a \<and> is_num b
         \<and> exact a = Some u \<and> exact b = Some w
         \<and> \<bar>u\<bar> \<le> pow2 1023 \<and> \<bar>w\<bar> \<le> pow2 1023
         \<and> pow2 (- 1021) \<le> \<bar>u * w\<bar> \<and> \<bar>u * w\<bar> \<le> pow2 1022 \<longrightarrow>
         (\<exists>z v. multiply a b = Inr (PFloat z) \<and> exact (PFloat z) = Some v
                \<and> \<bar>v - u * w\<bar> \<le> pow2 (- 51) * \<bar>u * w\<bar>))"
proof -
  have 1: "multiply a b = py_mul a b" by (simp add: multiply_def)
  have 2: "call_multiply a b w0 = (multiply a b, w0)" by (rule call_multiply_eq)
  have 3: "multiply (PInt i) (PInt j) = Inr (PInt (i * j))" by (simp add: multiply_def)
  have 4: "multiply a b = Inl e \<longleftrightarrow> e = OverflowError \<and> unconvertible a b"
    unfolding 1 by (rule py_mul_Inl_iff)
  have 5: "\<forall>r. multiply a b = Inr r \<longrightarrow> is_float r = (is_float a \<or> is_float b)"
    unfolding 1 using py_mul_is_float by blast
  have 6: "\<forall>u w. (is_float a \<or> is_float b) \<and> float_exact a \<and> float_exact b
         \<and> is_num a \<and> is_num b \<and> exact a = Some u \<and> exact b = Some w
         \<and> round_mag \<bar>u * w\<bar> = Some \<bar>u * w\<bar> \<longrightarrow>
         (\<exists>z. multiply a b = Inr (PFloat z) \<and> exact (PFloat z) = Some (u * w))"
    unfolding 1 using py_mul_exact [of a b] by blast
  have 7: "\<forall>u w. (is_float a \<or> is_float b) \<and> float_exact a \<and> float_exact b
         \<and> is_num a \<and> is_num b \<and> exact a = Some u \<and> exact b = Some w
         \<and> pow2 (- 1022) \<le> \<bar>u * w\<bar> \<and> \<bar>u * w\<bar> \<le> pow2 1023 \<longrightarrow>
         (\<exists>z v. multiply a b = Inr (PFloat z) \<and> exact (PFloat z) = Some v
                \<and> \<bar>v - u * w\<bar> \<le> pow2 (- 53) * \<bar>u * w\<bar>)"
    unfolding 1 using py_mul_accurate [of a b] by blast
  have 8: "\<forall>u w. (is_float a \<or> is_float b) \<and> is_num a \<and> is_num b
         \<and> exact a = Some u \<and> exact b = Some w
         \<and> \<bar>u\<bar> \<le> pow2 1023 \<and> \<bar>w\<bar> \<le> pow2 1023
         \<and> pow2 (- 1021) \<le> \<bar>u * w\<bar> \<and> \<bar>u * w\<bar> \<le> pow2 1022 \<longrightarrow>
         (\<exists>z v. multiply a b = Inr (PFloat z) \<and> exact (PFloat z) = Some v
                \<and> \<bar>v - u * w\<bar> \<le> pow2 (- 51) * \<bar>u * w\<bar>)"
    unfolding 1 using py_mul_close [of a b] by blast
  show ?thesis using 1 2 3 4 5 6 7 8 by blast
qed

text \<open>
  The amended C5 at \<^verbatim>\<open>multiply(-3, -4)\<close>, \<^verbatim>\<open>multiply(2 ** 1024, 1.0)\<close> and
  \<^verbatim>\<open>multiply(3, -5.0)\<close>.
\<close>

theorem multiply_product_witness:
  "multiply (PInt (- 3)) (PInt (- 4)) = Inr (PInt 12)
   \<and> call_multiply (PInt (- 3)) (PInt (- 4)) (0 :: nat) = (Inr (PInt 12), 0)
   \<and> unconvertible (PInt (2 ^ 1024)) (PFloat (FNum False 1))
   \<and> multiply (PInt (2 ^ 1024)) (PFloat (FNum False 1)) = Inl OverflowError
   \<and> is_num (PFloat (FNum True 5))
   \<and> (\<exists>z. multiply (PInt 3) (PFloat (FNum True 5)) = Inr (PFloat z)
          \<and> exact (PFloat z) = Some (- 15))
   \<and> (\<exists>z v. multiply (PInt 3) (PFloat (FNum True 5)) = Inr (PFloat z)
          \<and> exact (PFloat z) = Some v \<and> \<bar>v - (- 15)\<bar> \<le> pow2 (- 53) * 15)
   \<and> (\<exists>z v. multiply (PInt 3) (PFloat (FNum True 5)) = Inr (PFloat z)
          \<and> exact (PFloat z) = Some v \<and> \<bar>v - (- 15)\<bar> \<le> pow2 (- 51) * 15)"
proof -
  have r: "pow2 (- 1022) \<le> 15" "15 \<le> pow2 1023" "pow2 (- 1021) \<le> 15" "15 \<le> pow2 1022"
    "3 \<le> pow2 1023" "5 \<le> pow2 1023"
    using pow2_mono [of "- 1022" 0] pow2_mono [of 4 1023] pow2_mono [of "- 1021" 0]
      pow2_mono [of 4 1022] pow2_mono [of 2 1023] pow2_mono [of 3 1023]
    by (simp_all add: pow2_def)
  have m: "round_mag 5 = Some 5" "round_mag 15 = Some 15"
    using round_mag_of_int [of 5] round_mag_of_int [of 15] by simp_all
  note ints = multiply_product [of "PInt (- 3)" "PInt (- 4)" "0 :: nat" "- 3" "- 4" OverflowError]
  note big = multiply_product [of "PInt (2 ^ 1024)" "PFloat (FNum False 1)" "0 :: nat" 2 3
      OverflowError]
  note mixed = multiply_product [of "PInt 3" "PFloat (FNum True 5)" "0 :: nat" 2 3 OverflowError]
  have 1: "multiply (PInt (- 3)) (PInt (- 4)) = Inr (PInt 12)"
    using ints [THEN conjunct2, THEN conjunct2, THEN conjunct1] by simp
  have 2: "call_multiply (PInt (- 3)) (PInt (- 4)) (0 :: nat) = (Inr (PInt 12), 0)"
    using ints [THEN conjunct2, THEN conjunct1] 1 by simp
  have 3: "multiply (PInt (2 ^ 1024)) (PFloat (FNum False 1)) = Inl OverflowError"
    using big [THEN conjunct2, THEN conjunct2, THEN conjunct2, THEN conjunct1]
      unconvertible_2_1024 [of "FNum False 1"] by blast
  have n: "is_num (PFloat (FNum True 5))" by (simp add: m)
  have "\<exists>z. multiply (PInt 3) (PFloat (FNum True 5)) = Inr (PFloat z)
          \<and> exact (PFloat z) = Some (3 * - 5)"
    by (rule mixed [THEN conjunct2, THEN conjunct2, THEN conjunct2, THEN conjunct2,
          THEN conjunct2, THEN conjunct1, rule_format, of 3 "- 5"])
      (simp add: m signed_def)
  then have 4: "\<exists>z. multiply (PInt 3) (PFloat (FNum True 5)) = Inr (PFloat z)
          \<and> exact (PFloat z) = Some (- 15)" by simp
  have "\<exists>z v. multiply (PInt 3) (PFloat (FNum True 5)) = Inr (PFloat z)
          \<and> exact (PFloat z) = Some v \<and> \<bar>v - 3 * - 5\<bar> \<le> pow2 (- 53) * \<bar>3 * - 5\<bar>"
    by (rule mixed [THEN conjunct2, THEN conjunct2, THEN conjunct2, THEN conjunct2,
          THEN conjunct2, THEN conjunct2, THEN conjunct1, rule_format, of 3 "- 5"])
      (simp add: m r signed_def)
  then have 5: "\<exists>z v. multiply (PInt 3) (PFloat (FNum True 5)) = Inr (PFloat z)
          \<and> exact (PFloat z) = Some v \<and> \<bar>v - (- 15)\<bar> \<le> pow2 (- 53) * 15" by simp
  have "\<exists>z v. multiply (PInt 3) (PFloat (FNum True 5)) = Inr (PFloat z)
          \<and> exact (PFloat z) = Some v \<and> \<bar>v - 3 * - 5\<bar> \<le> pow2 (- 51) * \<bar>3 * - 5\<bar>"
    by (rule mixed [THEN conjunct2, THEN conjunct2, THEN conjunct2, THEN conjunct2,
          THEN conjunct2, THEN conjunct2, THEN conjunct2, rule_format, of 3 "- 5"])
      (simp add: m r signed_def)
  then have 6: "\<exists>z v. multiply (PInt 3) (PFloat (FNum True 5)) = Inr (PFloat z)
          \<and> exact (PFloat z) = Some v \<and> \<bar>v - (- 15)\<bar> \<le> pow2 (- 51) * 15" by simp
  show ?thesis using 1 2 3 4 5 6 n unconvertible_2_1024 [of "FNum False 1"] by blast
qed

text \<open>
  C8, as stated: for every number \<open>a\<close> and every \<open>b\<close> other than zero,
  \<^verbatim>\<open>multiply(divide(a, b), b)\<close> approximately equals \<open>a\<close>. At \<open>a = 1\<close> and
  \<open>b = 2\<^sup>1\<^sup>1\<^sup>0\<^sup>0\<close>, two ints, the quotient underflows to \<^verbatim>\<open>0.0\<close> and the product then
  raises \<^verbatim>\<open>OverflowError\<close>, the int being too large to convert: the expression has no
  value, whatever the tolerance.
\<close>

theorem roundtrip_close_counterexample:
  "\<not> py_eq (PInt (2 ^ 1100)) (PInt 0)
   \<and> divide_py (PInt 1) (PInt (2 ^ 1100)) = Inr (PFloat (FNum False 0))
   \<and> roundtrip (PInt 1) (PInt (2 ^ 1100)) = Inl OverflowError"
proof -
  have nz: "(2 ^ 1100 :: int) \<noteq> 0" by simp
  then have 1: "\<not> py_eq (PInt (2 ^ 1100)) (PInt 0)" by (simp only: py_eq.simps not_False_eq_True)
  have "(1 :: rat) / 2 ^ 1100 = pow2 (- 1100)" by (simp add: pow2_def)
  also have "\<dots> < pow2 (- 1075)" by (simp add: pow2_less_iff)
  finally have "round_mag (1 / 2 ^ 1100) = Some 0"
    by (intro round_mag_underflow) simp_all
  moreover have "\<bar>of_int 1 :: rat\<bar> / \<bar>of_int (2 ^ 1100)\<bar> = 1 / 2 ^ 1100" by simp
  ultimately have "round_mag (\<bar>of_int 1\<bar> / \<bar>of_int (2 ^ 1100)\<bar>) = Some 0"
    by (simp only:)
  then have "int_truediv 1 (2 ^ 1100) = Inr (FNum False 0)"
    using nz by (simp only: int_truediv_def if_False option.case) simp
  then have 2: "divide_py (PInt 1) (PInt (2 ^ 1100)) = Inr (PFloat (FNum False 0))"
    using 1 by (simp only: divide_py_def py_truediv.simps if_False sum.case)
  have "unconvertible (PFloat (FNum False 0)) (PInt (2 ^ 1100))"
    using too_large_2_1100 by (simp only: unconvertible_float)
  then have "multiply (PFloat (FNum False 0)) (PInt (2 ^ 1100)) = Inl OverflowError"
    by (simp only: multiply_def py_mul_Inl_iff simp_thms)
  then have 3: "roundtrip (PInt 1) (PInt (2 ^ 1100)) = Inl OverflowError"
    using 2 by (simp only: roundtrip_def sum.case)
  show ?thesis using 1 2 3 by blast
qed

text \<open>
  C8, amended: let \<open>a\<close> and \<open>b\<close> be finite numbers, \<open>b\<close> other than zero and of magnitude
  at most \<open>2\<^sup>1\<^sup>0\<^sup>2\<^sup>3\<close>. When \<open>2\<^sup>-\<^sup>1\<^sup>0\<^sup>2\<^sup>1 \<le> \<bar>a\<bar> \<le> 2\<^sup>1\<^sup>0\<^sup>2\<^sup>2\<close> and \<open>2\<^sup>-\<^sup>1\<^sup>0\<^sup>2\<^sup>0 \<le> \<bar>a / b\<bar> \<le> 2\<^sup>1\<^sup>0\<^sup>2\<^sup>1\<close>,
  \<^verbatim>\<open>multiply(divide(a, b), b)\<close> returns a finite float within \<open>2\<^sup>-\<^sup>5\<^sup>1 \<bar>a\<bar>\<close> of \<open>a\<close>; when
  \<open>a\<close> is zero it returns a zero.
\<close>

theorem roundtrip_close:
  "(\<forall>u w. is_num a \<and> is_num b \<and> exact a = Some u \<and> exact b = Some w
        \<and> w \<noteq> 0 \<and> \<bar>w\<bar> \<le> pow2 1023
        \<and> pow2 (- 1021) \<le> \<bar>u\<bar> \<and> \<bar>u\<bar> \<le> pow2 1022
        \<and> pow2 (- 1020) \<le> \<bar>u / w\<bar> \<and> \<bar>u / w\<bar> \<le> pow2 1021 \<longrightarrow>
        (\<exists>z v. roundtrip a b = Inr (PFloat z) \<and> exact (PFloat z) = Some v
               \<and> \<bar>v - u\<bar> \<le> pow2 (- 51) * \<bar>u\<bar>))
   \<and> (\<forall>w. is_num b \<and> exact a = Some 0 \<and> exact b = Some w \<and> w \<noteq> 0 \<and> \<bar>w\<bar> \<le> pow2 1023 \<longrightarrow>
        (\<exists>z. roundtrip a b = Inr (PFloat z) \<and> exact (PFloat z) = Some 0))"
proof -
  have 1: "\<exists>z v. roundtrip a b = Inr (PFloat z) \<and> exact (PFloat z) = Some v
               \<and> \<bar>v - u\<bar> \<le> pow2 (- 51) * \<bar>u\<bar>"
    if h: "is_num a" "is_num b" "exact a = Some u" "exact b = Some w"
      "w \<noteq> 0" "\<bar>w\<bar> \<le> pow2 1023" "pow2 (- 1021) \<le> \<bar>u\<bar>" "\<bar>u\<bar> \<le> pow2 1022"
      "pow2 (- 1020) \<le> \<bar>u / w\<bar>" "\<bar>u / w\<bar> \<le> pow2 1021" for u w
  proof -
    obtain p where p: "roundtrip a b = Inr (PFloat (FNum (u < 0) p))" "near 3 \<bar>u\<bar> p"
      using roundtrip_near [OF h] by blast
    have "\<bar>signed (u < 0) p - u\<bar> = \<bar>signed (u < 0) p - signed (u < 0) \<bar>u\<bar>\<bar>"
      by (simp only: signed_of_sign)
    also have "\<dots> = \<bar>p - \<bar>u\<bar>\<bar>" by (rule signed_diff_abs)
    also have "\<dots> \<le> pow2 (- 51) * \<bar>u\<bar>" using p(2) by (rule near_3_close) simp
    finally show ?thesis
      using p(1) by (intro exI [of _ "FNum (u < 0) p"] exI [of _ "signed (u < 0) p"]) simp
  qed
  have 2: "\<exists>z. roundtrip a b = Inr (PFloat z) \<and> exact (PFloat z) = Some 0"
    if h: "is_num b" "exact a = Some 0" "exact b = Some w" "w \<noteq> 0" "\<bar>w\<bar> \<le> pow2 1023" for w
  proof -
    obtain s where "roundtrip a b = Inr (PFloat (FNum s 0))"
      using roundtrip_zero [OF h] by blast
    then show ?thesis by (intro exI [of _ "FNum s 0"]) simp
  qed
  show ?thesis using 1 2 by blast
qed

text \<open>
  The amended C8 at \<^verbatim>\<open>multiply(divide(1, 3), 3)\<close> and at
  \<^verbatim>\<open>multiply(divide(0, 5), 5)\<close>.
\<close>

theorem roundtrip_close_witness:
  "(\<exists>z v. roundtrip (PInt 1) (PInt 3) = Inr (PFloat z) \<and> exact (PFloat z) = Some v
         \<and> \<bar>v - 1\<bar> \<le> pow2 (- 51))
   \<and> (\<exists>z. roundtrip (PInt 0) (PInt 5) = Inr (PFloat z) \<and> exact (PFloat z) = Some 0)"
proof -
  have r: "pow2 (- 1021) \<le> 1" "1 \<le> pow2 1022" "3 \<le> pow2 1023"
    "pow2 (- 1020) \<le> 1 / 3" "1 / 3 \<le> pow2 1021" "5 \<le> pow2 1023"
    using pow2_mono [of "- 1021" 0] pow2_mono [of 0 1022] pow2_mono [of 2 1023]
      pow2_mono [of "- 1020" "- 2"] pow2_mono [of 0 1021] pow2_mono [of 3 1023]
    by (simp_all add: pow2_def)
  have 1: "\<exists>z v. roundtrip (PInt 1) (PInt 3) = Inr (PFloat z) \<and> exact (PFloat z) = Some v
         \<and> \<bar>v - 1\<bar> \<le> pow2 (- 51)"
    using roundtrip_close [of "PInt 1" "PInt 3"] r by simp
  have 2: "\<exists>z. roundtrip (PInt 0) (PInt 5) = Inr (PFloat z) \<and> exact (PFloat z) = Some 0"
    using roundtrip_close [of "PInt 0" "PInt 5"] r by simp
  show ?thesis using 1 2 by blast
qed


end
